theory Spec2Isabelle
  imports Main "HOL-Library.Word" "HOL-Library.Sublist"
begin

section \<open>JavaScript strings\<close>

text \<open>
  A JavaScript string is a sequence of 16-bit code units. Every function of
  \<^verbatim>\<open>security.ts\<close> works on code units (no regular expression there has the
  \<^verbatim>\<open>u\<close> flag), so a string is a list of 16-bit words; \<open>js\<close> turns an ASCII
  literal into such a list.
\<close>

type_synonym cu = "16 word"
type_synonym jstring = "cu list"

definition js :: "string \<Rightarrow> jstring" where
  "js s = map of_char s"

abbreviation CHAR_FORWARD_SLASH :: cu where "CHAR_FORWARD_SLASH \<equiv> 0x2F"
abbreviation CHAR_DOT :: cu where "CHAR_DOT \<equiv> 0x2E"
abbreviation CHAR_SINGLE_QUOTE :: cu where "CHAR_SINGLE_QUOTE \<equiv> 0x27"
abbreviation CHAR_BACKSLASH :: cu where "CHAR_BACKSLASH \<equiv> 0x5C"
abbreviation CHAR_LINE_FEED :: cu where "CHAR_LINE_FEED \<equiv> 0x0A"

text \<open>\<^verbatim>\<open>Array.prototype.join\<close> on an array of strings.\<close>

fun join :: "jstring \<Rightarrow> jstring list \<Rightarrow> jstring" where
  "join sep [] = []"
| "join sep [x] = x"
| "join sep (x # y # ys) = x @ sep @ join sep (y # ys)"

text \<open>\<^verbatim>\<open>String.prototype.startsWith\<close> is \<^const>\<open>prefix\<close>, with the arguments swapped.\<close>

definition startsWith :: "jstring \<Rightarrow> jstring \<Rightarrow> bool" where
  "startsWith s t \<longleftrightarrow> prefix t s"


section \<open>Regular expressions\<close>

text \<open>
  The character classes of ECMAScript without the \<^verbatim>\<open>u\<close> flag: \<^verbatim>\<open>\s\<close> is WhiteSpace
  and LineTerminator (tab, LF, VT, FF, CR, space, NBSP, U+1680, U+2000 to U+200A,
  U+2028, U+2029, U+202F, U+205F, U+3000, U+FEFF), \<^verbatim>\<open>\d\<close> is the ten ASCII digits,
  and the word characters behind \<^verbatim>\<open>\b\<close> are the ASCII letters, digits and underscore.
\<close>

definition isWhiteSpace :: "cu \<Rightarrow> bool" where
  "isWhiteSpace c \<longleftrightarrow>
     c = 0x09 \<or> c = 0x0A \<or> c = 0x0B \<or> c = 0x0C \<or> c = 0x0D \<or> c = 0x20 \<or> c = 0xA0 \<or>
     c = 0x1680 \<or> (0x2000 \<le> c \<and> c \<le> 0x200A) \<or> c = 0x2028 \<or> c = 0x2029 \<or>
     c = 0x202F \<or> c = 0x205F \<or> c = 0x3000 \<or> c = 0xFEFF"

definition isDigit :: "cu \<Rightarrow> bool" where
  "isDigit c \<longleftrightarrow> 0x30 \<le> c \<and> c \<le> 0x39"

definition isWordChar :: "cu \<Rightarrow> bool" where
  "isWordChar c \<longleftrightarrow>
     (0x61 \<le> c \<and> c \<le> 0x7A) \<or> (0x41 \<le> c \<and> c \<le> 0x5A) \<or> isDigit c \<or> c = 0x5F"

text \<open>
  Canonicalize of the \<^verbatim>\<open>i\<close> flag. ECMAScript upper-cases the code unit, and keeps
  a code unit of 128 or more that would map below 128. All pattern characters of
  this program are ASCII, and for a comparison with an ASCII character that is the
  same as upper-casing the ASCII lower-case letters only.
\<close>

definition canonicalize :: "cu \<Rightarrow> cu" where
  "canonicalize c = (if 0x61 \<le> c \<and> c \<le> 0x7A then c - 0x20 else c)"

datatype atom = Chr cu | WhiteSpace | Digit | Class "atom list"

fun atom_match :: "bool \<Rightarrow> atom \<Rightarrow> cu \<Rightarrow> bool" where
  "atom_match ic (Chr x) c = (if ic then canonicalize c = canonicalize x else c = x)"
| "atom_match ic WhiteSpace c = isWhiteSpace c"
| "atom_match ic Digit c = isDigit c"
| "atom_match ic (Class as) c = list_ex (\<lambda>a. atom_match ic a c) as"

text \<open>
  The patterns: atoms, the assertions \<^verbatim>\<open>\b\<close> and \<^verbatim>\<open>$\<close> (no \<^verbatim>\<open>m\<close> flag: end of
  input only), sequence, alternative, and the greedy quantifiers \<^verbatim>\<open>?\<close>, \<^verbatim>\<open>*\<close>, \<^verbatim>\<open>+\<close>.
  Groups capture nothing that \<^verbatim>\<open>test\<close> reads, so they are not represented.
\<close>

datatype rx = Eps | Atom atom | WordB | Eoi | Seq rx rx | Alt rx rx | Opt rx | Star rx | Plus rx

text \<open>
  A cursor is a position in the input: the code unit before it (if any) and the
  input that remains.
\<close>

type_synonym cursor = "cu option \<times> jstring"

fun cursors :: "cu option \<Rightarrow> jstring \<Rightarrow> cursor list" where
  "cursors prev [] = [(prev, [])]"
| "cursors prev (c # cs) = (prev, c # cs) # cursors (Some c) cs"

definition wordBefore :: "cursor \<Rightarrow> bool" where
  "wordBefore p = (case fst p of None \<Rightarrow> False | Some c \<Rightarrow> isWordChar c)"

definition wordAfter :: "cursor \<Rightarrow> bool" where
  "wordAfter p = (case snd p of [] \<Rightarrow> False | c # _ \<Rightarrow> isWordChar c)"

fun consume :: "bool \<Rightarrow> atom \<Rightarrow> cursor \<Rightarrow> cursor list" where
  "consume ic a (prev, []) = []"
| "consume ic a (prev, c # cs) = (if atom_match ic a c then [(Some c, cs)] else [])"

text \<open>\<open>reach k f ps\<close>: the cursors reached from \<open>ps\<close> by at most \<open>k\<close> rounds of \<open>f\<close>.\<close>

fun reach :: "nat \<Rightarrow> (cursor list \<Rightarrow> cursor list) \<Rightarrow> cursor list \<Rightarrow> cursor list" where
  "reach 0 f ps = ps"
| "reach (Suc k) f ps = ps @ reach k f (f ps)"

text \<open>
  \<open>adv ic n r ps\<close> lists the cursors at which a match of \<open>r\<close> that starts at a
  cursor of \<open>ps\<close> can end; \<open>n\<close> is the length of the input, which bounds the
  rounds of a quantifier (a round that consumes nothing reaches nothing new).
  A backtracking matcher finds a match exactly when one exists, so
  \<^verbatim>\<open>RegExp.prototype.test\<close> of a pattern without the \<^verbatim>\<open>g\<close> and \<^verbatim>\<open>y\<close> flags is: some
  start position has some end.
\<close>

fun adv :: "bool \<Rightarrow> nat \<Rightarrow> rx \<Rightarrow> cursor list \<Rightarrow> cursor list" where
  "adv ic n Eps ps = ps"
| "adv ic n (Atom a) ps = concat (map (consume ic a) ps)"
| "adv ic n WordB ps = filter (\<lambda>p. wordBefore p \<noteq> wordAfter p) ps"
| "adv ic n Eoi ps = filter (\<lambda>p. snd p = []) ps"
| "adv ic n (Seq a b) ps = adv ic n b (adv ic n a ps)"
| "adv ic n (Alt a b) ps = adv ic n a ps @ adv ic n b ps"
| "adv ic n (Opt a) ps = adv ic n a ps @ ps"
| "adv ic n (Star a) ps = reach n (adv ic n a) ps"
| "adv ic n (Plus a) ps = reach n (adv ic n a) (adv ic n a ps)"

record RegExp =
  pattern :: rx
  ignoreCase :: bool

definition test :: "RegExp \<Rightarrow> jstring \<Rightarrow> bool" where
  "test re s \<longleftrightarrow> adv (ignoreCase re) (length s) (pattern re) (cursors None s) \<noteq> []"

subsection \<open>What a match is\<close>

text \<open>
  The matches of a pattern, as a relation between the cursor where a match
  starts and the cursor where it ends; \<open>cursorAt pre post\<close> is the cursor between
  \<open>pre\<close> and \<open>post\<close>. A pattern matches somewhere in a string when the string is
  \<open>pre\<close>, \<open>mid\<close>, \<open>post\<close> and the pattern matches from before \<open>mid\<close> to after it.
  The lemma \<open>test_matchesAnywhere\<close> below proves that \<open>test\<close> decides this.
\<close>

inductive matches :: "bool \<Rightarrow> rx \<Rightarrow> cursor \<Rightarrow> cursor \<Rightarrow> bool" for ic :: bool where
  m_Eps: "matches ic Eps p p"
| m_Atom: "atom_match ic a c \<Longrightarrow> matches ic (Atom a) (prev, c # cs) (Some c, cs)"
| m_WordB: "wordBefore p \<noteq> wordAfter p \<Longrightarrow> matches ic WordB p p"
| m_Eoi: "snd p = [] \<Longrightarrow> matches ic Eoi p p"
| m_Seq: "matches ic a p q \<Longrightarrow> matches ic b q r \<Longrightarrow> matches ic (Seq a b) p r"
| m_Alt1: "matches ic a p q \<Longrightarrow> matches ic (Alt a b) p q"
| m_Alt2: "matches ic b p q \<Longrightarrow> matches ic (Alt a b) p q"
| m_Opt0: "matches ic (Opt a) p p"
| m_Opt1: "matches ic a p q \<Longrightarrow> matches ic (Opt a) p q"
| m_Star0: "matches ic (Star a) p p"
| m_StarS: "matches ic a p q \<Longrightarrow> matches ic (Star a) q r \<Longrightarrow> matches ic (Star a) p r"
| m_Plus: "matches ic a p q \<Longrightarrow> matches ic (Star a) q r \<Longrightarrow> matches ic (Plus a) p r"

text \<open>\<open>rounds ic a k p q\<close>: \<open>k\<close> matches of \<open>a\<close> in a row lead from \<open>p\<close> to \<open>q\<close>.\<close>

inductive rounds :: "bool \<Rightarrow> rx \<Rightarrow> nat \<Rightarrow> cursor \<Rightarrow> cursor \<Rightarrow> bool" for ic :: bool and a :: rx where
  r_0: "rounds ic a 0 p p"
| r_Suc: "matches ic a p q \<Longrightarrow> rounds ic a k q r \<Longrightarrow> rounds ic a (Suc k) p r"

definition bounded :: "nat \<Rightarrow> cursor list \<Rightarrow> bool" where
  "bounded n ps \<longleftrightarrow> (\<forall>p \<in> set ps. length (snd p) \<le> n)"

definition cursorAt :: "jstring \<Rightarrow> jstring \<Rightarrow> cursor" where
  "cursorAt pre post = ((if pre = [] then None else Some (last pre)), post)"

definition matchesAnywhere :: "RegExp \<Rightarrow> jstring \<Rightarrow> bool" where
  "matchesAnywhere re s \<longleftrightarrow>
     (\<exists>pre mid post. s = pre @ mid @ post \<and>
        matches (ignoreCase re) (pattern re) (cursorAt pre (mid @ post)) (cursorAt (pre @ mid) post))"


subsection \<open>Writing patterns\<close>

text \<open>Notation for writing the patterns as the source has them.\<close>

definition lit :: "string \<Rightarrow> rx" where
  "lit s = foldr (\<lambda>c r. Seq (Atom (Chr (of_char c))) r) s Eps"

definition seqs :: "rx list \<Rightarrow> rx" where
  "seqs rs = foldr Seq rs Eps"

fun alts :: "rx \<Rightarrow> rx list \<Rightarrow> rx" where
  "alts r [] = r"
| "alts r (x # xs) = Alt r (alts x xs)"

abbreviation ws :: rx where "ws \<equiv> Atom WhiteSpace"

text \<open>
  \<^verbatim>\<open>String.prototype.replace\<close> with a pattern that has the \<^verbatim>\<open>g\<close> flag only and is
  one atom, a character or a class: every match is exactly one code unit (lemma
  \<open>matches_Atom\<close> below), so the scan visits the code units from left to right
  and replaces each one the atom accepts. The replacement may depend on the
  matched code unit (\<^verbatim>\<open>$1\<close>).
\<close>

fun replaceAtom :: "atom \<Rightarrow> (cu \<Rightarrow> jstring) \<Rightarrow> jstring \<Rightarrow> jstring" where
  "replaceAtom a repl [] = []"
| "replaceAtom a repl (c # cs) =
     (if atom_match False a c then repl c else [c]) @ replaceAtom a repl cs"


section \<open>\<^verbatim>\<open>path.posix.normalize\<close>\<close>

text \<open>
  The normalizer of the Node.js library (\<^verbatim>\<open>lib/path.js\<close>; not part of the
  repository), statement by statement. \<^verbatim>\<open>normalizeString\<close> scans the path once,
  with the result so far, the length of its last segment, the index of the last
  separator seen, the number of dots of the current segment (\<open>-1\<close> when it is
  not made of dots only) and the current code unit as its variables; the scan
  makes one more round after the last code unit, with a separator, unless the
  path ends with one. \<^verbatim>\<open>lastIndexOf\<close> is given one code unit to look for, the
  separator; \<^verbatim>\<open>slice\<close> treats negative and too large indices as the language
  does.
\<close>

definition isPosixPathSeparator :: "cu \<Rightarrow> bool" where
  "isPosixPathSeparator c \<longleftrightarrow> c = CHAR_FORWARD_SLASH"

fun StringPrototypeLastIndexOf :: "jstring \<Rightarrow> cu \<Rightarrow> int" where
  "StringPrototypeLastIndexOf [] c = - 1"
| "StringPrototypeLastIndexOf (x # xs) c =
     (let r = StringPrototypeLastIndexOf xs c in if r \<ge> 0 then r + 1 else if x = c then 0 else - 1)"

definition StringPrototypeSlice :: "jstring \<Rightarrow> int \<Rightarrow> int \<Rightarrow> jstring" where
  "StringPrototypeSlice s start end =
     (let len = int (length s);
          from = (if start < 0 then max (len + start) 0 else min start len);
          to = (if end < 0 then max (len + end) 0 else min end len)
      in take (nat (to - from)) (drop (nat from) s))"

record NState =
  res :: jstring
  lastSegmentLength :: int
  lastSlash :: int
  dots :: int
  code :: cu

definition lastIsNotDotDot :: "NState \<Rightarrow> bool" where
  "lastIsNotDotDot st \<longleftrightarrow>
     length (res st) < 2 \<or> lastSegmentLength st \<noteq> 2 \<or>
     res st ! (length (res st) - 1) \<noteq> CHAR_DOT \<or>
     res st ! (length (res st) - 2) \<noteq> CHAR_DOT"

definition normalizeString_body :: "jstring \<Rightarrow> bool \<Rightarrow> int \<Rightarrow> NState \<Rightarrow> NState" where
  "normalizeString_body path allowAboveRoot i st =
     (if isPosixPathSeparator (code st) then
        (if lastSlash st = i - 1 \<or> dots st = 1 then st\<lparr>lastSlash := i, dots := 0\<rparr>
         else if dots st = 2 then
           (if lastIsNotDotDot st \<and> length (res st) > 2 then
              (let lastSlashIndex = StringPrototypeLastIndexOf (res st) CHAR_FORWARD_SLASH in
               if lastSlashIndex = - 1 then
                 st\<lparr>res := [], lastSegmentLength := 0, lastSlash := i, dots := 0\<rparr>
               else
                 (let res' = StringPrototypeSlice (res st) 0 lastSlashIndex in
                  st\<lparr>res := res',
                     lastSegmentLength := int (length res') - 1 - StringPrototypeLastIndexOf res' CHAR_FORWARD_SLASH,
                     lastSlash := i, dots := 0\<rparr>))
            else if lastIsNotDotDot st \<and> length (res st) \<noteq> 0 then
              st\<lparr>res := [], lastSegmentLength := 0, lastSlash := i, dots := 0\<rparr>
            else if allowAboveRoot then
              st\<lparr>res := res st @ (if length (res st) > 0 then [CHAR_FORWARD_SLASH, CHAR_DOT, CHAR_DOT]
                                   else [CHAR_DOT, CHAR_DOT]),
                 lastSegmentLength := 2, lastSlash := i, dots := 0\<rparr>
            else st\<lparr>lastSlash := i, dots := 0\<rparr>)
         else
           st\<lparr>res := (if length (res st) > 0
                       then res st @ [CHAR_FORWARD_SLASH] @ StringPrototypeSlice path (lastSlash st + 1) i
                       else StringPrototypeSlice path (lastSlash st + 1) i),
              lastSegmentLength := i - lastSlash st - 1, lastSlash := i, dots := 0\<rparr>)
      else if code st = CHAR_DOT \<and> dots st \<noteq> - 1 then st\<lparr>dots := dots st + 1\<rparr>
      else st\<lparr>dots := - 1\<rparr>)"

function normalizeString_loop :: "jstring \<Rightarrow> bool \<Rightarrow> nat \<Rightarrow> NState \<Rightarrow> jstring" where
  "normalizeString_loop path allowAboveRoot i st =
     (if i \<le> length path then
        (if i < length path then
           normalizeString_loop path allowAboveRoot (i + 1) (normalizeString_body path allowAboveRoot (int i) (st\<lparr>code := path ! i\<rparr>))
         else if isPosixPathSeparator (code st) then res st
         else normalizeString_loop path allowAboveRoot (i + 1)
                (normalizeString_body path allowAboveRoot (int i) (st\<lparr>code := CHAR_FORWARD_SLASH\<rparr>)))
      else res st)"
  by pat_completeness auto
termination
  by (relation "measure (\<lambda>(path, a, i, st). Suc (length path) - i)") auto

definition normalizeString :: "jstring \<Rightarrow> bool \<Rightarrow> jstring" where
  "normalizeString path allowAboveRoot =
     normalizeString_loop path allowAboveRoot 0
       \<lparr>res = [], lastSegmentLength = 0, lastSlash = - 1, dots = 0, code = 0\<rparr>"

declare normalizeString_loop.simps [simp del]

text \<open>
  \<^verbatim>\<open>normalize\<close>: the empty path gives \<^verbatim>\<open>.\<close>, a trailing separator of the input is
  put back, and an absolute path gets its leading separator back.
\<close>

definition posix_normalize :: "jstring \<Rightarrow> jstring" where
  "posix_normalize path =
     (if length path = 0 then [CHAR_DOT]
      else
        let isAbsolute = (hd path = CHAR_FORWARD_SLASH);
            trailingSeparator = (last path = CHAR_FORWARD_SLASH);
            path' = normalizeString path (\<not> isAbsolute)
        in if length path' = 0 then
             (if isAbsolute then [CHAR_FORWARD_SLASH]
              else if trailingSeparator then [CHAR_DOT, CHAR_FORWARD_SLASH] else [CHAR_DOT])
           else
             (if isAbsolute then [CHAR_FORWARD_SLASH] else []) @ path' @
             (if trailingSeparator then [CHAR_FORWARD_SLASH] else []))"

subsection \<open>The scan, segment by segment\<close>

text \<open>
  What the scan computes, on the segments between separators: an empty segment
  and \<^verbatim>\<open>.\<close> are dropped, \<^verbatim>\<open>..\<close> removes the segment before it unless there is
  none or that one is \<^verbatim>\<open>..\<close> itself, in which case it is kept for a relative
  path and dropped for an absolute one; every other segment is kept. The lemma
  \<open>normalizeString_segments\<close> below proves that the scan computes this.
\<close>

fun splitSlash :: "jstring \<Rightarrow> jstring list" where
  "splitSlash [] = [[]]"
| "splitSlash (c # cs) =
     (if c = CHAR_FORWARD_SLASH then [] # splitSlash cs
      else (case splitSlash cs of [] \<Rightarrow> [[c]] | seg # segs \<Rightarrow> (c # seg) # segs))"

definition segStep :: "bool \<Rightarrow> jstring list \<Rightarrow> jstring \<Rightarrow> jstring list" where
  "segStep allowAboveRoot stack seg =
     (if seg = [] \<or> seg = [CHAR_DOT] then stack
      else if seg = [CHAR_DOT, CHAR_DOT] then
        (if stack \<noteq> [] \<and> last stack \<noteq> [CHAR_DOT, CHAR_DOT] then butlast stack
         else if allowAboveRoot then stack @ [[CHAR_DOT, CHAR_DOT]]
         else stack)
      else stack @ [seg])"

text \<open>
  The state of the scan before index \<open>i\<close>, from the segments of the first \<open>i\<close>
  code units: the segments completed (\<open>stackAt\<close>), and the one being read
  (\<open>curAt\<close>).
\<close>

definition dotcount :: "jstring \<Rightarrow> int" where
  "dotcount w = (if \<forall>c \<in> set w. c = CHAR_DOT then int (length w) else - 1)"

definition goodSeg :: "jstring \<Rightarrow> bool" where
  "goodSeg s \<longleftrightarrow> s \<noteq> [] \<and> CHAR_FORWARD_SLASH \<notin> set s"

definition absState :: "jstring list \<Rightarrow> jstring \<Rightarrow> int \<Rightarrow> cu \<Rightarrow> NState" where
  "absState stack cur i c =
     \<lparr>res = join [CHAR_FORWARD_SLASH] stack,
      lastSegmentLength = (if stack = [] then 0 else int (length (last stack))),
      lastSlash = i - 1 - int (length cur),
      dots = dotcount cur,
      code = c\<rparr>"

definition stackAt :: "bool \<Rightarrow> jstring \<Rightarrow> nat \<Rightarrow> jstring list" where
  "stackAt a path i = foldl (segStep a) [] (butlast (splitSlash (take i path)))"

definition curAt :: "jstring \<Rightarrow> nat \<Rightarrow> jstring" where
  "curAt path i = last (splitSlash (take i path))"


section \<open>\<^verbatim>\<open>security.ts\<close>\<close>

record DenyPattern =
  regex :: RegExp
  reason :: jstring

definition DENY_PATTERNS :: "DenyPattern list" where
  "DENY_PATTERNS = [
     \<lparr>regex = \<lparr>pattern = seqs [WordB, lit ''rm'', Plus ws, lit ''-rf'', Plus ws, lit ''/'', Alt ws Eoi],
               ignoreCase = True\<rparr>,
      reason = js ''Refuses full filesystem deletion (rm -rf /).''\<rparr>,
     \<lparr>regex = \<lparr>pattern = seqs [WordB, lit ''mkfs'', WordB], ignoreCase = True\<rparr>,
      reason = js ''Refuses filesystem formatting command.''\<rparr>,
     \<lparr>regex = \<lparr>pattern = seqs [WordB, lit ''dd'', Plus ws, lit ''if=''], ignoreCase = True\<rparr>,
      reason = js ''Refuses raw disk overwrite command.''\<rparr>,
     \<lparr>regex = \<lparr>pattern = seqs [WordB, lit ''shutdown'', WordB], ignoreCase = True\<rparr>,
      reason = js ''Refuses remote shutdown command.''\<rparr>,
     \<lparr>regex = \<lparr>pattern = seqs [WordB, lit ''reboot'', WordB], ignoreCase = True\<rparr>,
      reason = js ''Refuses remote reboot command.''\<rparr>,
     \<lparr>regex = \<lparr>pattern = seqs [WordB, lit ''halt'', WordB], ignoreCase = True\<rparr>,
      reason = js ''Refuses remote halt command.''\<rparr>,
     \<lparr>regex = \<lparr>pattern = seqs [WordB, lit ''launchctl'', Plus ws,
                 alts (lit ''bootout'') [lit ''remove''], WordB], ignoreCase = True\<rparr>,
      reason = js ''Refuses launchctl destructive operation.''\<rparr>,
     \<lparr>regex = \<lparr>pattern = seqs [WordB, lit ''apt'', Opt (lit ''-get''), Plus ws,
                 alts (lit ''remove'') [lit ''purge''], WordB], ignoreCase = True\<rparr>,
      reason = js ''Refuses package removal command.''\<rparr>,
     \<lparr>regex = \<lparr>pattern = seqs [WordB, lit ''chflags'', Plus ws, lit ''-R'', Plus ws, lit ''uchg'', WordB],
               ignoreCase = True\<rparr>,
      reason = js ''Refuses recursive immutable flag write.''\<rparr>]"

definition WRITE_COMMAND_PATTERNS :: "RegExp list" where
  "WRITE_COMMAND_PATTERNS = [
     \<lparr>pattern = seqs [WordB,
         alts (lit ''touch'') [lit ''mkdir'', lit ''rmdir'', lit ''mv'', lit ''cp'', lit ''rm'', lit ''ln'',
           lit ''install'', lit ''tee'', lit ''truncate'', lit ''chmod'', lit ''chown'', lit ''chgrp''],
         WordB], ignoreCase = True\<rparr>,
     \<lparr>pattern = seqs [WordB, lit ''sed'', Plus ws, lit ''-i'', WordB], ignoreCase = True\<rparr>,
     \<lparr>pattern = seqs [WordB, lit ''perl'', Plus ws, lit ''-i'', WordB], ignoreCase = True\<rparr>,
     \<lparr>pattern = seqs [WordB, lit ''python'', Star (Atom Digit),
         Opt (Seq (lit ''.'') (Plus (Atom Digit))), Plus ws, lit ''-m'', Plus ws, lit ''pip'', Plus ws,
         lit ''install'', WordB], ignoreCase = True\<rparr>,
     \<lparr>pattern = seqs [WordB, lit ''apt'', Opt (lit ''-get''), Plus ws, lit ''install'', WordB],
      ignoreCase = True\<rparr>]"

text \<open>
  The functions throw \<^verbatim>\<open>new Error(message)\<close>. One constructor per throw site,
  carrying what the message is built from; \<open>message\<close> is the text thrown.
\<close>

datatype error =
    InvalidPath jstring
  | WritePathBlocked "jstring list" "jstring list"
  | DeniedByPolicy jstring
  | WriteIntentOnReadPath

fun message :: "error \<Rightarrow> jstring" where
  "message (InvalidPath v) = js ''Expected absolute remote path, got: '' @ v"
| "message (WritePathBlocked allowedRoots denied) =
     js ''Write path blocked by allowlist. Allowed roots: '' @ join (js '', '') allowedRoots @
     js ''. Blocked: '' @ join (js '', '') denied"
| "message (DeniedByPolicy r) = js ''Blocked by denylist: '' @ r"
| "message WriteIntentOnReadPath =
     js ''Write-like command blocked in iphone_run_command/readonly context. Use iphone_run_write_command with write_paths.''"

definition shellQuote :: "jstring \<Rightarrow> jstring" where
  "shellQuote v =
     [CHAR_SINGLE_QUOTE] @
     replaceAtom (Chr CHAR_SINGLE_QUOTE)
       (\<lambda>_. [CHAR_SINGLE_QUOTE, CHAR_BACKSLASH, CHAR_SINGLE_QUOTE, CHAR_SINGLE_QUOTE]) v @
     [CHAR_SINGLE_QUOTE]"

definition normalizeRemotePath :: "jstring \<Rightarrow> error + jstring" where
  "normalizeRemotePath v =
     (if \<not> startsWith v [CHAR_FORWARD_SLASH] then Inl (InvalidPath v)
      else Inr (posix_normalize v))"

definition pathWithinRoots :: "jstring \<Rightarrow> jstring list \<Rightarrow> bool" where
  "pathWithinRoots target roots =
     list_ex (\<lambda>root.
        let normalizedRoot = posix_normalize root
        in target = normalizedRoot \<or> startsWith target (normalizedRoot @ [CHAR_FORWARD_SLASH]))
       roots"

text \<open>\<^verbatim>\<open>paths.map(f)\<close> with an \<open>f\<close> that may throw: the first throw ends the call.\<close>

fun mapThrowing :: "('a \<Rightarrow> error + 'b) \<Rightarrow> 'a list \<Rightarrow> error + 'b list" where
  "mapThrowing f [] = Inr []"
| "mapThrowing f (x # xs) =
     (case f x of
        Inl e \<Rightarrow> Inl e
      | Inr y \<Rightarrow> (case mapThrowing f xs of Inl e \<Rightarrow> Inl e | Inr ys \<Rightarrow> Inr (y # ys)))"

definition ensureAllowedWritePaths :: "jstring list \<Rightarrow> jstring list \<Rightarrow> error + jstring list" where
  "ensureAllowedWritePaths paths allowedRoots =
     (case mapThrowing normalizeRemotePath paths of
        Inl e \<Rightarrow> Inl e
      | Inr normalized \<Rightarrow>
          let denied = filter (\<lambda>entry. \<not> pathWithinRoots entry allowedRoots) normalized
          in if length denied > 0 then Inl (WritePathBlocked allowedRoots denied)
             else Inr normalized)"

fun matchDeniedPattern :: "jstring \<Rightarrow> DenyPattern list \<Rightarrow> DenyPattern option" where
  "matchDeniedPattern command [] = None"
| "matchDeniedPattern command (p # patterns) =
     (if test (regex p) command then Some p else matchDeniedPattern command patterns)"

definition isLikelyWriteCommand :: "jstring \<Rightarrow> bool" where
  "isLikelyWriteCommand command = list_ex (\<lambda>p. test p command) WRITE_COMMAND_PATTERNS"

text \<open>
  The class of \<^verbatim>\<open>escapeScpRemotePath\<close>, item by item in the order of the source;
  the pattern has the \<^verbatim>\<open>g\<close> flag only, and the replacement is a backslash and
  \<^verbatim>\<open>$1\<close>, the code unit matched.
\<close>

definition SCP_SPECIAL :: atom where
  "SCP_SPECIAL = Class [Chr 0x5C, WhiteSpace, Chr 0x22, Chr 0x27, Chr 0x60, Chr 0x24, Chr 0x21,
     Chr 0x23, Chr 0x26, Chr 0x2A, Chr 0x28, Chr 0x29, Chr 0x5B, Chr 0x5D, Chr 0x7B, Chr 0x7D,
     Chr 0x3B, Chr 0x3C, Chr 0x3E, Chr 0x3F, Chr 0x7C, Chr 0x7E, Chr 0x3A]"

definition escapeScpRemotePath :: "jstring \<Rightarrow> jstring" where
  "escapeScpRemotePath pathname =
     replaceAtom SCP_SPECIAL (\<lambda>c. [CHAR_BACKSLASH, c]) pathname"


section \<open>\<^verbatim>\<open>execReadCommand\<close> and \<^verbatim>\<open>execWriteCommand\<close>\<close>

text \<open>
  The two functions through which the tool handlers run a command on the host.
  \<^verbatim>\<open>ssh.execRemote\<close> spawns the transport; it is a parameter here, a function
  from the command, the timeout and the state of the world to a result and the
  new state. An entry point that throws returns the error and the state it was
  given. \<^verbatim>\<open>config.allowedWriteRoots\<close> is a parameter too.
\<close>

definition execReadCommand ::
  "(jstring \<Rightarrow> nat option \<Rightarrow> 's \<Rightarrow> 'r \<times> 's) \<Rightarrow> jstring \<Rightarrow> nat option \<Rightarrow> 's \<Rightarrow> (error + 'r) \<times> 's" where
  "execReadCommand execRemote command timeoutSec s =
     (case matchDeniedPattern command DENY_PATTERNS of
        Some denied \<Rightarrow> (Inl (DeniedByPolicy (reason denied)), s)
      | None \<Rightarrow>
          if isLikelyWriteCommand command then (Inl WriteIntentOnReadPath, s)
          else (case execRemote command timeoutSec s of (r, s') \<Rightarrow> (Inr r, s')))"

definition execWriteCommand ::
  "(jstring \<Rightarrow> nat option \<Rightarrow> 's \<Rightarrow> 'r \<times> 's) \<Rightarrow> jstring list \<Rightarrow> jstring \<Rightarrow> jstring list \<Rightarrow>
     nat option \<Rightarrow> 's \<Rightarrow> (error + 'r) \<times> 's" where
  "execWriteCommand execRemote allowedWriteRoots command writePaths timeoutSec s =
     (case matchDeniedPattern command DENY_PATTERNS of
        Some denied \<Rightarrow> (Inl (DeniedByPolicy (reason denied)), s)
      | None \<Rightarrow>
          (case ensureAllowedWritePaths writePaths allowedWriteRoots of
             Inl e \<Rightarrow> (Inl e, s)
           | Inr _ \<Rightarrow> (case execRemote command timeoutSec s of (r, s') \<Rightarrow> (Inr r, s'))))"

text \<open>A transport that only records the commands it is given.\<close>

definition recordingTransport :: "jstring \<Rightarrow> nat option \<Rightarrow> jstring list \<Rightarrow> unit \<times> jstring list" where
  "recordingTransport command timeoutSec sent = ((), sent @ [command])"


section \<open>Quoting in the POSIX shell\<close>

text \<open>
  The shell's reading of one word, as far as quoting goes (Shell Command Language,
  2.2): between single quotes every character stands for itself and the next
  single quote ends the quotation; outside, a backslash makes the next character
  literal (and removes a following newline with itself), and an unquoted
  character that has a meaning to the shell ends the reading without a word.
  \<open>sh_unquoted w\<close> is the string the word \<open>w\<close> denotes, if \<open>w\<close> is one word.
\<close>

definition sh_special :: "cu \<Rightarrow> bool" where
  "sh_special c \<longleftrightarrow> c \<in> {0x7C, 0x26, 0x3B, 0x3C, 0x3E, 0x28, 0x29, 0x24, 0x60, 0x22, 0x20, 0x09,
     0x0A, 0x2A, 0x3F, 0x5B, 0x23, 0x7E, 0x3D, 0x25, 0x21, 0x7B, 0x7D}"

fun sh_unquoted :: "jstring \<Rightarrow> jstring option"
  and sh_single :: "jstring \<Rightarrow> jstring option" where
  "sh_unquoted [] = Some []"
| "sh_unquoted (c # cs) =
     (if c = CHAR_SINGLE_QUOTE then sh_single cs
      else if c = CHAR_BACKSLASH then
        (case cs of
           [] \<Rightarrow> None
         | d # ds \<Rightarrow> if d = CHAR_LINE_FEED then sh_unquoted ds else map_option ((#) d) (sh_unquoted ds))
      else if sh_special c then None
      else map_option ((#) c) (sh_unquoted cs))"
| "sh_single [] = None"
| "sh_single (c # cs) =
     (if c = CHAR_SINGLE_QUOTE then sh_unquoted cs else map_option ((#) c) (sh_single cs))"

section \<open>The specification's words\<close>

text \<open>
  The characters the specification lists for the remote-copy escaping: backslash,
  whitespace, double, single and back quote, dollar, exclamation mark, hash,
  ampersand, star, parentheses, brackets, braces, semicolon, angle brackets,
  question mark, bar, tilde, colon.
\<close>

definition scpEscaped :: "cu \<Rightarrow> bool" where
  "scpEscaped c \<longleftrightarrow>
     c = 0x5C \<or> isWhiteSpace c \<or>
     c \<in> {0x22, 0x27, 0x60, 0x24, 0x21, 0x23, 0x26, 0x2A, 0x28, 0x29, 0x5B, 0x5D, 0x7B, 0x7D,
          0x3B, 0x3C, 0x3E, 0x3F, 0x7C, 0x7E, 0x3A}"

text \<open>
  The components of a path are the non-empty segments between its separators.
  Lexical resolution walks them from the root directory: \<^verbatim>\<open>.\<close> stays, \<^verbatim>\<open>..\<close>
  goes to the parent (the root is its own parent), a name goes down.
\<close>

definition components :: "jstring \<Rightarrow> jstring list" where
  "components p = filter (\<lambda>seg. seg \<noteq> []) (splitSlash p)"

fun walk :: "jstring list \<Rightarrow> jstring list \<Rightarrow> jstring list" where
  "walk dir [] = dir"
| "walk dir (c # cs) =
     (if c = [CHAR_DOT] then walk dir cs
      else if c = [CHAR_DOT, CHAR_DOT] then walk (butlast dir) cs
      else walk (dir @ [c]) cs)"

text \<open>A redundant separator: two separators side by side.\<close>

fun hasDoubleSlash :: "jstring \<Rightarrow> bool" where
  "hasDoubleSlash [] = False"
| "hasDoubleSlash [c] = False"
| "hasDoubleSlash (c # d # cs) =
     ((c = CHAR_FORWARD_SLASH \<and> d = CHAR_FORWARD_SLASH) \<or> hasDoubleSlash (d # cs))"

text \<open>A segment that resolution keeps as it is: a name.\<close>

definition cleanSeg :: "jstring \<Rightarrow> bool" where
  "cleanSeg seg \<longleftrightarrow>
     seg \<noteq> [] \<and> seg \<noteq> [CHAR_DOT] \<and> seg \<noteq> [CHAR_DOT, CHAR_DOT] \<and> CHAR_FORWARD_SLASH \<notin> set seg"

text \<open>
  The allowlist invariant: a path is allowed for a root set when it equals some
  (normalized) root, or is that root, the separator, and more.
\<close>

definition onBoundary :: "jstring \<Rightarrow> jstring \<Rightarrow> bool" where
  "onBoundary p r \<longleftrightarrow> p = r \<or> (\<exists>rest. p = r @ [CHAR_FORWARD_SLASH] @ rest)"

definition allowedFor :: "jstring \<Rightarrow> jstring list \<Rightarrow> bool" where
  "allowedFor p R \<longleftrightarrow> (\<exists>root \<in> set R. onBoundary p (posix_normalize root))"


section \<open>The encoders\<close>

lemma matches_Atom:
  "matches ic (Atom a) p q \<longleftrightarrow>
     (\<exists>prev c cs. p = (prev, c # cs) \<and> q = (Some c, cs) \<and> atom_match ic a c)"
  by (auto elim: matches.cases intro: matches.intros)

lemma replaceAtom_concat:
  "replaceAtom a repl s = concat (map (\<lambda>c. if atom_match False a c then repl c else [c]) s)"
  by (induction s) simp_all

lemma sh_single_replaceAtom:
  "sh_single (replaceAtom (Chr CHAR_SINGLE_QUOTE)
     (\<lambda>_. [CHAR_SINGLE_QUOTE, CHAR_BACKSLASH, CHAR_SINGLE_QUOTE, CHAR_SINGLE_QUOTE]) v @
     [CHAR_SINGLE_QUOTE]) = Some v"
  by (induction v) simp_all

text \<open>
  C3. For every string \<open>s\<close>, \<open>shellQuote s\<close> is \<open>s\<close> between two single quotes
  with every single quote of \<open>s\<close> replaced by the four characters quote,
  backslash, quote, quote; the shell reads \<open>shellQuote s\<close> as one word that
  denotes exactly \<open>s\<close>; the empty string gives two quotes, \<^verbatim>\<open>abc\<close> gives \<^verbatim>\<open>'abc'\<close>, and
  the three characters a, quote, b give the eight characters quote, a, quote,
  backslash, quote, quote, b, quote.
\<close>

theorem shellQuote_roundtrip:
  "shellQuote s =
     [CHAR_SINGLE_QUOTE] @
     concat (map (\<lambda>c. if c = CHAR_SINGLE_QUOTE
                       then [CHAR_SINGLE_QUOTE, CHAR_BACKSLASH, CHAR_SINGLE_QUOTE, CHAR_SINGLE_QUOTE]
                       else [c]) s) @
     [CHAR_SINGLE_QUOTE]
   \<and> sh_unquoted (shellQuote s) = Some s
   \<and> shellQuote [] = [CHAR_SINGLE_QUOTE, CHAR_SINGLE_QUOTE]
   \<and> shellQuote (js ''abc'') = [CHAR_SINGLE_QUOTE] @ js ''abc'' @ [CHAR_SINGLE_QUOTE]
   \<and> shellQuote (js ''a'b'') = [0x27, 0x61, 0x27, 0x5C, 0x27, 0x27, 0x62, 0x27]"
proof -
  have a: "sh_unquoted (shellQuote s) = Some s"
    by (simp add: shellQuote_def sh_single_replaceAtom)
  have b: "shellQuote s =
     [CHAR_SINGLE_QUOTE] @
     concat (map (\<lambda>c. if c = CHAR_SINGLE_QUOTE
                       then [CHAR_SINGLE_QUOTE, CHAR_BACKSLASH, CHAR_SINGLE_QUOTE, CHAR_SINGLE_QUOTE]
                       else [c]) s) @
     [CHAR_SINGLE_QUOTE]"
    by (simp add: shellQuote_def replaceAtom_concat)
  have c: "shellQuote [] = [CHAR_SINGLE_QUOTE, CHAR_SINGLE_QUOTE]"
    by (simp add: shellQuote_def)
  have d: "shellQuote (js ''abc'') = [CHAR_SINGLE_QUOTE] @ js ''abc'' @ [CHAR_SINGLE_QUOTE]"
    by (simp add: shellQuote_def js_def)
  have e: "shellQuote (js ''a'b'') = [0x27, 0x61, 0x27, 0x5C, 0x27, 0x27, 0x62, 0x27]"
    by (simp add: shellQuote_def js_def)
  from a b c d e show ?thesis by blast
qed

theorem shellQuote_roundtrip_witness:
  "sh_unquoted (shellQuote (js ''it's; $HOME `x`'')) = Some (js ''it's; $HOME `x`'')"
  using shellQuote_roundtrip [of "js ''it's; $HOME `x`''"] by blast

lemma SCP_SPECIAL_scpEscaped: "atom_match False SCP_SPECIAL c = scpEscaped c"
  by (auto simp add: SCP_SPECIAL_def scpEscaped_def)

lemma escapeScpRemotePath_concat:
  "escapeScpRemotePath s = concat (map (\<lambda>c. if scpEscaped c then [CHAR_BACKSLASH, c] else [c]) s)"
  by (simp add: escapeScpRemotePath_def replaceAtom_concat SCP_SPECIAL_scpEscaped)

lemma hd_concat_escape:
  "s \<noteq> [] \<Longrightarrow>
   hd (concat (map (\<lambda>c. if P c then [CHAR_BACKSLASH, c] else [c]) s)) =
     (if P (hd s) then CHAR_BACKSLASH else hd s)"
  by (cases s) simp_all

text \<open>
  C4. For every string \<open>s\<close>, \<open>escapeScpRemotePath s\<close> is \<open>s\<close> with one backslash
  before every character of the specification's list and every other character
  unchanged; no quote is put in front (the result of a non-empty \<open>s\<close> never
  starts with a quote); \<^verbatim>\<open>/tmp/file.deb\<close> is unchanged, \<^verbatim>\<open>/tmp/my file.deb\<close> gets a
  backslash before the space and \<^verbatim>\<open>/tmp/weird'file\<close> one before the single quote.
\<close>

theorem escapeScpRemotePath_spec:
  "escapeScpRemotePath s = concat (map (\<lambda>c. if scpEscaped c then [CHAR_BACKSLASH, c] else [c]) s)
   \<and> (s \<noteq> [] \<longrightarrow> hd (escapeScpRemotePath s) \<notin> {0x22, 0x27})
   \<and> escapeScpRemotePath (js ''/tmp/file.deb'') = js ''/tmp/file.deb''
   \<and> escapeScpRemotePath (js ''/tmp/my file.deb'') = js ''/tmp/my'' @ [CHAR_BACKSLASH] @ js '' file.deb''
   \<and> escapeScpRemotePath (js ''/tmp/weird'file'') = js ''/tmp/weird'' @ [CHAR_BACKSLASH] @ js '''file''"
proof -
  have b: "s \<noteq> [] \<longrightarrow> hd (escapeScpRemotePath s) \<notin> {0x22, 0x27}"
    by (auto simp add: escapeScpRemotePath_concat hd_concat_escape scpEscaped_def)
  have c: "escapeScpRemotePath (js ''/tmp/file.deb'') = js ''/tmp/file.deb''"
    by (simp add: escapeScpRemotePath_concat js_def scpEscaped_def isWhiteSpace_def)
  have d: "escapeScpRemotePath (js ''/tmp/my file.deb'') =
      js ''/tmp/my'' @ [CHAR_BACKSLASH] @ js '' file.deb''"
    by (simp add: escapeScpRemotePath_concat js_def scpEscaped_def isWhiteSpace_def)
  have e: "escapeScpRemotePath (js ''/tmp/weird'file'') =
      js ''/tmp/weird'' @ [CHAR_BACKSLASH] @ js '''file''"
    by (simp add: escapeScpRemotePath_concat js_def scpEscaped_def isWhiteSpace_def)
  from escapeScpRemotePath_concat [of s] b c d e show ?thesis by blast
qed

theorem escapeScpRemotePath_spec_witness:
  "js ''a b:c'' \<noteq> []
   \<and> hd (escapeScpRemotePath (js ''a b:c'')) = 0x61
   \<and> escapeScpRemotePath (js ''a b:c'') = [0x61, 0x5C, 0x20, 0x62, 0x5C, 0x3A, 0x63]"
  using escapeScpRemotePath_spec [of "js ''a b:c''"]
  by (simp add: js_def scpEscaped_def isWhiteSpace_def)


section \<open>The matcher\<close>

inductive_cases m_EpsE: "matches ic Eps p q"
inductive_cases m_AtomE: "matches ic (Atom a) p q"
inductive_cases m_WordBE: "matches ic WordB p q"
inductive_cases m_EoiE: "matches ic Eoi p q"
inductive_cases m_SeqE: "matches ic (Seq a b) p q"
inductive_cases m_AltE: "matches ic (Alt a b) p q"
inductive_cases m_OptE: "matches ic (Opt a) p q"
inductive_cases m_PlusE: "matches ic (Plus a) p q"

lemma matches_shrinks: "matches ic r p q \<Longrightarrow> q = p \<or> length (snd q) < length (snd p)"
  by (induction rule: matches.induct) auto

lemma matches_length: "matches ic r p q \<Longrightarrow> length (snd q) \<le> length (snd p)"
  using matches_shrinks by fastforce

lemma rounds_length: "rounds ic a k p q \<Longrightarrow> length (snd q) \<le> length (snd p)"
  by (induction rule: rounds.induct) (auto dest: matches_length)

lemma Star_rounds: "matches ic r p q \<Longrightarrow> r = Star a \<Longrightarrow> \<exists>k. rounds ic a k p q"
  by (induction rule: matches.induct) (auto intro: rounds.intros)

lemma rounds_Star: "rounds ic a k p q \<Longrightarrow> matches ic (Star a) p q"
  by (induction rule: rounds.induct) (auto intro: matches.intros)

lemma rounds_bounded:
  "rounds ic a k p q \<Longrightarrow> \<exists>j. j + length (snd q) \<le> length (snd p) \<and> rounds ic a j p q"
proof (induction rule: rounds.induct)
  case (r_0 p)
  have "rounds ic a 0 p p" by (rule rounds.r_0)
  then show ?case by fastforce
next
  case (r_Suc p q k r)
  then obtain j where j: "j + length (snd r) \<le> length (snd q)" "rounds ic a j q r" by blast
  from matches_shrinks [OF r_Suc.hyps(1)] show ?case
  proof
    assume "q = p"
    with j show ?thesis by blast
  next
    assume "length (snd q) < length (snd p)"
    with j(1) have "Suc j + length (snd r) \<le> length (snd p)" by simp
    moreover have "rounds ic a (Suc j) p r" using r_Suc.hyps(1) j(2) by (rule rounds.r_Suc)
    ultimately show ?thesis by blast
  qed
qed

lemma Star_iff_rounds:
  "matches ic (Star a) p q \<longleftrightarrow> (\<exists>k \<le> length (snd p). rounds ic a k p q)"
proof
  assume "matches ic (Star a) p q"
  then obtain k where "rounds ic a k p q" using Star_rounds by blast
  from rounds_bounded [OF this] obtain j
    where "j + length (snd q) \<le> length (snd p)" "rounds ic a j p q" by blast
  then show "\<exists>k \<le> length (snd p). rounds ic a k p q" by (intro exI [of _ j]) simp
next
  assume "\<exists>k \<le> length (snd p). rounds ic a k p q"
  then show "matches ic (Star a) p q" using rounds_Star by blast
qed

inductive_cases r_0E: "rounds ic a 0 p q"
inductive_cases r_SucE: "rounds ic a (Suc k) p q"

lemma rounds_0_iff: "rounds ic a 0 p q \<longleftrightarrow> q = p"
  by (auto elim: r_0E intro: rounds.intros)

lemma rounds_Suc_iff: "rounds ic a (Suc k) p q \<longleftrightarrow> (\<exists>p'. matches ic a p p' \<and> rounds ic a k p' q)"
  by (blast elim: r_SucE intro: rounds.intros)

lemma rounds_le_Suc:
  "(\<exists>j \<le> Suc k. rounds ic a j p q) \<longleftrightarrow>
     q = p \<or> (\<exists>p'. matches ic a p p' \<and> (\<exists>j \<le> k. rounds ic a j p' q))"
proof
  assume "\<exists>j \<le> Suc k. rounds ic a j p q"
  then obtain j where j: "j \<le> Suc k" "rounds ic a j p q" by blast
  show "q = p \<or> (\<exists>p'. matches ic a p p' \<and> (\<exists>j \<le> k. rounds ic a j p' q))"
  proof (cases j)
    case 0
    with j show ?thesis by (simp add: rounds_0_iff)
  next
    case (Suc j')
    with j show ?thesis by (auto simp add: rounds_Suc_iff)
  qed
next
  assume "q = p \<or> (\<exists>p'. matches ic a p p' \<and> (\<exists>j \<le> k. rounds ic a j p' q))"
  then show "\<exists>j \<le> Suc k. rounds ic a j p q"
  proof
    assume "q = p"
    then have "rounds ic a 0 p q" by (simp add: rounds_0_iff)
    then show ?thesis by blast
  next
    assume "\<exists>p'. matches ic a p p' \<and> (\<exists>j \<le> k. rounds ic a j p' q)"
    then obtain p' j where "matches ic a p p'" "j \<le> k" "rounds ic a j p' q" by blast
    then have "Suc j \<le> Suc k" "rounds ic a (Suc j) p q" by (auto intro: rounds.intros)
    then show ?thesis by blast
  qed
qed

lemma reach_set:
  assumes f: "\<And>ps. bounded n ps \<Longrightarrow> set (f ps) = {q. \<exists>p \<in> set ps. matches ic a p q}"
    and b: "bounded n ps"
  shows "set (reach k f ps) = {q. \<exists>p \<in> set ps. \<exists>j \<le> k. rounds ic a j p q}"
  using b
proof (induction k arbitrary: ps)
  case 0
  then show ?case by (auto simp add: rounds_0_iff)
next
  case (Suc k)
  have bf: "bounded n (f ps)"
    using f [OF Suc.prems] Suc.prems
    by (fastforce simp add: bounded_def dest: matches_length)
  have "set (reach (Suc k) f ps) = set ps \<union> set (reach k f (f ps))" by simp
  also have "\<dots> = set ps \<union> {q. \<exists>p' \<in> set (f ps). \<exists>j \<le> k. rounds ic a j p' q}"
    using Suc.IH [OF bf] by simp
  also have "\<dots> = {q. \<exists>p \<in> set ps. q = p \<or> (\<exists>p'. matches ic a p p' \<and> (\<exists>j \<le> k. rounds ic a j p' q))}"
    using f [OF Suc.prems] by auto
  also have "\<dots> = {q. \<exists>p \<in> set ps. \<exists>j \<le> Suc k. rounds ic a j p q}"
    by (simp only: rounds_le_Suc)
  finally show ?case .
qed

lemma Star_bounded_rounds:
  "length (snd p) \<le> n \<Longrightarrow> (\<exists>j \<le> n. rounds ic a j p q) \<longleftrightarrow> matches ic (Star a) p q"
  using Star_iff_rounds [of ic a p q] rounds_Star [of ic a _ p q] by (meson le_trans)

lemma adv_set:
  "bounded n ps \<Longrightarrow> set (adv ic n r ps) = {q. \<exists>p \<in> set ps. matches ic r p q}"
proof (induction r arbitrary: ps)
  case Eps
  then show ?case by (auto elim: m_EpsE intro: matches.intros)
next
  case (Atom a)
  have "set (consume ic a p) = {q. matches ic (Atom a) p q}" for p
    by (cases "(ic, a, p)" rule: consume.cases) (auto elim: m_AtomE intro: matches.intros)
  then show ?case by auto
next
  case WordB
  then show ?case by (auto elim: m_WordBE intro: matches.intros)
next
  case Eoi
  then show ?case by (auto elim: m_EoiE intro: matches.intros)
next
  case (Seq a b)
  have ba: "bounded n (adv ic n a ps)"
    using Seq.IH(1) [OF Seq.prems] Seq.prems
    by (fastforce simp add: bounded_def dest: matches_length)
  have "set (adv ic n (Seq a b) ps) = {q. \<exists>p' \<in> set (adv ic n a ps). matches ic b p' q}"
    using Seq.IH(2) [OF ba] by simp
  also have "\<dots> = {q. \<exists>p \<in> set ps. \<exists>p'. matches ic a p p' \<and> matches ic b p' q}"
    using Seq.IH(1) [OF Seq.prems] by blast
  also have "\<dots> = {q. \<exists>p \<in> set ps. matches ic (Seq a b) p q}"
    by (blast elim: m_SeqE intro: matches.intros)
  finally show ?case .
next
  case (Alt a b)
  then show ?case by (auto elim: m_AltE intro: matches.intros)
next
  case (Opt a)
  then show ?case by (auto elim: m_OptE intro: matches.intros)
next
  case (Star a)
  have "set (adv ic n (Star a) ps) = {q. \<exists>p \<in> set ps. \<exists>j \<le> n. rounds ic a j p q}"
    using reach_set [of n "adv ic n a" ic a ps n] Star.IH Star.prems by simp
  also have "\<dots> = {q. \<exists>p \<in> set ps. matches ic (Star a) p q}"
    using Star.prems by (auto simp add: bounded_def Star_bounded_rounds)
  finally show ?case .
next
  case (Plus a)
  have ba: "bounded n (adv ic n a ps)"
    using Plus.IH [OF Plus.prems] Plus.prems
    by (fastforce simp add: bounded_def dest: matches_length)
  have "set (adv ic n (Plus a) ps) = {q. \<exists>p' \<in> set (adv ic n a ps). \<exists>j \<le> n. rounds ic a j p' q}"
    using reach_set [of n "adv ic n a" ic a "adv ic n a ps" n] Plus.IH ba by simp
  also have "\<dots> = {q. \<exists>p' \<in> set (adv ic n a ps). matches ic (Star a) p' q}"
    using ba by (auto simp add: bounded_def Star_bounded_rounds)
  also have "\<dots> = {q. \<exists>p \<in> set ps. \<exists>p'. matches ic a p p' \<and> matches ic (Star a) p' q}"
    using Plus.IH [OF Plus.prems] by blast
  also have "\<dots> = {q. \<exists>p \<in> set ps. matches ic (Plus a) p q}"
    by (blast elim: m_PlusE intro: matches.intros)
  finally show ?case .
qed

lemma cursors_set:
  "set (cursors (fst (cursorAt pre0 [])) s) = {cursorAt (pre0 @ pre) post | pre post. s = pre @ post}"
proof (induction s arbitrary: pre0)
  case Nil
  then show ?case by (auto simp add: cursorAt_def)
next
  case (Cons c s)
  have "set (cursors (Some c) s) = {cursorAt ((pre0 @ [c]) @ pre) post | pre post. s = pre @ post}"
    using Cons [of "pre0 @ [c]"] by (simp add: cursorAt_def)
  then have "set (cursors (fst (cursorAt pre0 [])) (c # s)) =
      insert (cursorAt pre0 (c # s)) {cursorAt (pre0 @ c # pre) post | pre post. s = pre @ post}"
    by (simp add: cursorAt_def)
  also have "\<dots> = {cursorAt (pre0 @ pre) post | pre post. c # s = pre @ post}"
    by (auto simp add: Cons_eq_append_conv) (metis append_Nil2)
  finally show ?case .
qed

lemma cursors_None:
  "set (cursors None s) = {cursorAt pre post | pre post. s = pre @ post}"
proof -
  have "fst (cursorAt [] []) = None" by (simp add: cursorAt_def)
  with cursors_set [of "[]" s] show ?thesis by (simp only: append_Nil)
qed

lemma cursors_bounded: "bounded (length s) (cursors prev s)"
  by (induction prev s rule: cursors.induct) (auto simp add: bounded_def)

lemma matches_consumes:
  "matches ic r p q \<Longrightarrow> p = cursorAt pre rest \<Longrightarrow>
   \<exists>mid post. rest = mid @ post \<and> q = cursorAt (pre @ mid) post"
proof (induction arbitrary: pre rest rule: matches.induct)
  case (m_Atom a c prev cs)
  then have "rest = [c] @ cs \<and> (Some c, cs) = cursorAt (pre @ [c]) cs"
    by (simp add: cursorAt_def)
  then show ?case by blast
next
  case (m_Seq a p q b r)
  then obtain mid post where 1: "rest = mid @ post" "q = cursorAt (pre @ mid) post" by blast
  from m_Seq.IH(2) [OF 1(2)] obtain mid' post' where
    "post = mid' @ post'" "r = cursorAt ((pre @ mid) @ mid') post'" by blast
  with 1 have "rest = (mid @ mid') @ post' \<and> r = cursorAt (pre @ (mid @ mid')) post'" by simp
  then show ?case by blast
next
  case (m_StarS a p q r)
  then obtain mid post where 1: "rest = mid @ post" "q = cursorAt (pre @ mid) post" by blast
  from m_StarS.IH(2) [OF 1(2)] obtain mid' post' where
    "post = mid' @ post'" "r = cursorAt ((pre @ mid) @ mid') post'" by blast
  with 1 have "rest = (mid @ mid') @ post' \<and> r = cursorAt (pre @ (mid @ mid')) post'" by simp
  then show ?case by blast
next
  case (m_Plus a p q r)
  then obtain mid post where 1: "rest = mid @ post" "q = cursorAt (pre @ mid) post" by blast
  from m_Plus.IH(2) [OF 1(2)] obtain mid' post' where
    "post = mid' @ post'" "r = cursorAt ((pre @ mid) @ mid') post'" by blast
  with 1 have "rest = (mid @ mid') @ post' \<and> r = cursorAt (pre @ (mid @ mid')) post'" by simp
  then show ?case by blast
qed (fastforce+)

lemma test_matchesAnywhere: "test re s \<longleftrightarrow> matchesAnywhere re s"
proof -
  have "test re s \<longleftrightarrow> set (adv (ignoreCase re) (length s) (pattern re) (cursors None s)) \<noteq> {}"
    by (simp add: test_def)
  also have "\<dots> \<longleftrightarrow> (\<exists>q. \<exists>p \<in> set (cursors None s). matches (ignoreCase re) (pattern re) p q)"
    using adv_set [OF cursors_bounded, of "ignoreCase re" s "pattern re" None] by auto
  also have "\<dots> \<longleftrightarrow> (\<exists>q pre rest. s = pre @ rest \<and> matches (ignoreCase re) (pattern re) (cursorAt pre rest) q)"
    unfolding cursors_None by blast
  also have "\<dots> \<longleftrightarrow> (\<exists>pre mid post. s = pre @ mid @ post \<and>
        matches (ignoreCase re) (pattern re) (cursorAt pre (mid @ post)) (cursorAt (pre @ mid) post))"
    (is "?L \<longleftrightarrow> ?R")
  proof
    assume ?L
    then obtain q pre rest where 1: "s = pre @ rest"
      "matches (ignoreCase re) (pattern re) (cursorAt pre rest) q" by blast
    from matches_consumes [OF 1(2) refl] obtain mid post where
      "rest = mid @ post" "q = cursorAt (pre @ mid) post" by blast
    with 1 show ?R by blast
  next
    assume ?R
    then show ?L by blast
  qed
  finally show ?thesis by (simp add: matchesAnywhere_def)
qed


section \<open>The classifiers\<close>

lemma matchDeniedPattern_find:
  "matchDeniedPattern c ps = find (\<lambda>p. test (regex p) c) ps"
  by (induction ps) simp_all

lemma matchDeniedPattern_None:
  "matchDeniedPattern c ps = None \<longleftrightarrow> (\<forall>p \<in> set ps. \<not> matchesAnywhere (regex p) c)"
  by (induction ps) (simp_all add: test_matchesAnywhere)

lemma matchDeniedPattern_Some:
  "matchDeniedPattern c ps = Some d \<longleftrightarrow>
     (\<exists>i < length ps. ps ! i = d \<and> matchesAnywhere (regex d) c \<and>
        (\<forall>j < i. \<not> matchesAnywhere (regex (ps ! j)) c))"
  by (simp add: matchDeniedPattern_find find_Some_iff test_matchesAnywhere) blast

lemma deny_rm:
  "map_option reason (matchDeniedPattern (js ''rm -rf /'') DENY_PATTERNS) =
     Some (js ''Refuses full filesystem deletion (rm -rf /).'')"
  by code_simp

lemma deny_reboot:
  "map_option reason (matchDeniedPattern (js ''reboot'') DENY_PATTERNS) =
     Some (js ''Refuses remote reboot command.'')"
  by code_simp

lemma deny_ls: "matchDeniedPattern (js ''ls -la'') DENY_PATTERNS = None"
  by code_simp

text \<open>
  C7. For every command \<open>c\<close> and rule table \<open>ps\<close>, \<open>matchDeniedPattern c ps\<close> is
  null exactly when no rule of the table has a pattern that matches somewhere
  in \<open>c\<close>, and it is the rule \<open>d\<close> exactly when \<open>d\<close> stands at an index of the
  table, its pattern matches somewhere in \<open>c\<close>, and no rule at an earlier index
  does. On the fixed table, \<^verbatim>\<open>rm -rf /\<close> and \<^verbatim>\<open>reboot\<close> return a rule with its
  reason, and \<^verbatim>\<open>ls -la\<close> returns null.
\<close>

theorem matchDeniedPattern_first_match:
  "(matchDeniedPattern c ps = None \<longleftrightarrow> (\<forall>p \<in> set ps. \<not> matchesAnywhere (regex p) c))
   \<and> (\<forall>d. matchDeniedPattern c ps = Some d \<longleftrightarrow>
         (\<exists>i < length ps. ps ! i = d \<and> matchesAnywhere (regex d) c \<and>
            (\<forall>j < i. \<not> matchesAnywhere (regex (ps ! j)) c)))
   \<and> map_option reason (matchDeniedPattern (js ''rm -rf /'') DENY_PATTERNS) =
       Some (js ''Refuses full filesystem deletion (rm -rf /).'')
   \<and> map_option reason (matchDeniedPattern (js ''reboot'') DENY_PATTERNS) =
       Some (js ''Refuses remote reboot command.'')
   \<and> matchDeniedPattern (js ''ls -la'') DENY_PATTERNS = None"
  using matchDeniedPattern_None [of c ps] matchDeniedPattern_Some [of c ps] deny_rm deny_reboot deny_ls
  by blast

lemma deny_reboot_shutdown:
  "matchDeniedPattern (js ''reboot; shutdown'') DENY_PATTERNS = Some (DENY_PATTERNS ! 3)"
  by code_simp

lemma deny_reboot_shutdown_reason:
  "reason (DENY_PATTERNS ! 3) = js ''Refuses remote shutdown command.''"
  by code_simp

theorem matchDeniedPattern_first_match_witness:
  "matchDeniedPattern (js ''reboot; shutdown'') DENY_PATTERNS = Some (DENY_PATTERNS ! 3)
   \<and> reason (DENY_PATTERNS ! 3) = js ''Refuses remote shutdown command.''
   \<and> (\<exists>i < length DENY_PATTERNS.
        DENY_PATTERNS ! i = DENY_PATTERNS ! 3
        \<and> matchesAnywhere (regex (DENY_PATTERNS ! 3)) (js ''reboot; shutdown'')
        \<and> (\<forall>j < i. \<not> matchesAnywhere (regex (DENY_PATTERNS ! j)) (js ''reboot; shutdown'')))"
  using matchDeniedPattern_first_match [of "js ''reboot; shutdown''" DENY_PATTERNS]
    deny_reboot_shutdown deny_reboot_shutdown_reason
  by blast

lemma write_ls: "\<not> isLikelyWriteCommand (js ''ls -la /var/mobile'')"
  by code_simp

lemma write_tail: "\<not> isLikelyWriteCommand (js ''tail -n 200 /var/log/syslog'')"
  by code_simp

lemma write_mkdir: "isLikelyWriteCommand (js ''mkdir -p /var/mobile/test'')"
  by code_simp

lemma write_pip: "isLikelyWriteCommand (js ''python3.14 -m pip install requests'')"
  by code_simp

text \<open>
  C8. For every command \<open>c\<close>, \<open>isLikelyWriteCommand c\<close> is true exactly when some
  write-intent signature of the fixed table matches somewhere in \<open>c\<close>; it is
  false for \<^verbatim>\<open>ls -la /var/mobile\<close> and \<^verbatim>\<open>tail -n 200 /var/log/syslog\<close>, and true for
  \<^verbatim>\<open>mkdir -p /var/mobile/test\<close> and \<^verbatim>\<open>python3.14 -m pip install requests\<close>.
\<close>

theorem isLikelyWriteCommand_iff:
  "(isLikelyWriteCommand c \<longleftrightarrow> (\<exists>p \<in> set WRITE_COMMAND_PATTERNS. matchesAnywhere p c))
   \<and> \<not> isLikelyWriteCommand (js ''ls -la /var/mobile'')
   \<and> \<not> isLikelyWriteCommand (js ''tail -n 200 /var/log/syslog'')
   \<and> isLikelyWriteCommand (js ''mkdir -p /var/mobile/test'')
   \<and> isLikelyWriteCommand (js ''python3.14 -m pip install requests'')"
  using write_ls write_tail write_mkdir write_pip
  by (simp add: isLikelyWriteCommand_def list_ex_iff test_matchesAnywhere)

lemma write_sed: "isLikelyWriteCommand (js ''sed -i s/a/b/ /etc/hosts'')"
  by code_simp

theorem isLikelyWriteCommand_iff_witness:
  "isLikelyWriteCommand (js ''sed -i s/a/b/ /etc/hosts'')
   \<and> (\<exists>p \<in> set WRITE_COMMAND_PATTERNS. matchesAnywhere p (js ''sed -i s/a/b/ /etc/hosts''))"
  using isLikelyWriteCommand_iff [of "js ''sed -i s/a/b/ /etc/hosts''"] write_sed by blast


section \<open>Normalization\<close>

lemma splitSlash_nonempty [simp]: "splitSlash s \<noteq> []"
  by (induction s) (auto split: list.splits)

lemma splitSlash_no_slash: "seg \<in> set (splitSlash s) \<Longrightarrow> CHAR_FORWARD_SLASH \<notin> set seg"
  by (induction s arbitrary: seg) (auto split: list.splits if_splits)

lemma splitSlash_plain: "CHAR_FORWARD_SLASH \<notin> set w \<Longrightarrow> splitSlash w = [w]"
  by (induction w) auto

lemma splitSlash_plain_append:
  "CHAR_FORWARD_SLASH \<notin> set w \<Longrightarrow> splitSlash (w @ CHAR_FORWARD_SLASH # b) = w # splitSlash b"
  by (induction w) auto

lemma splitSlash_join:
  "segs \<noteq> [] \<Longrightarrow> \<forall>s \<in> set segs. CHAR_FORWARD_SLASH \<notin> set s \<Longrightarrow>
   splitSlash (join [CHAR_FORWARD_SLASH] segs) = segs"
  by (induction "[CHAR_FORWARD_SLASH]" segs rule: join.induct)
     (simp_all add: splitSlash_plain splitSlash_plain_append)

lemma splitSlash_join_slash:
  "segs \<noteq> [] \<Longrightarrow> \<forall>s \<in> set segs. CHAR_FORWARD_SLASH \<notin> set s \<Longrightarrow>
   splitSlash (join [CHAR_FORWARD_SLASH] segs @ [CHAR_FORWARD_SLASH]) = segs @ [[]]"
  by (induction "[CHAR_FORWARD_SLASH]" segs rule: join.induct)
     (simp_all add: splitSlash_plain splitSlash_plain_append)

lemma join_nonempty: "segs \<noteq> [] \<Longrightarrow> last segs \<noteq> [] \<Longrightarrow> join sep segs \<noteq> []"
  by (induction sep segs rule: join.induct) auto

lemma last_join:
  "segs \<noteq> [] \<Longrightarrow> last segs \<noteq> [] \<Longrightarrow> last (join sep segs) = last (last segs)"
proof (induction sep segs rule: join.induct)
  case (3 sep x y ys)
  then have "join sep (y # ys) \<noteq> []" by (intro join_nonempty) auto
  with 3 show ?case by simp
qed simp_all

lemma dotcount_Nil [simp]: "dotcount [] = 0"
  by (simp add: dotcount_def)

lemma dotcount_snoc:
  "dotcount (w @ [c]) = (if c = CHAR_DOT \<and> dotcount w \<noteq> - 1 then dotcount w + 1 else - 1)"
  by (auto simp add: dotcount_def)

lemma dotcount_1: "dotcount w = 1 \<longleftrightarrow> w = [CHAR_DOT]"
  by (cases w) (auto simp add: dotcount_def split: if_splits)

lemma dotcount_2: "dotcount w = 2 \<longleftrightarrow> w = [CHAR_DOT, CHAR_DOT]"
proof (cases w)
  case Nil
  then show ?thesis by simp
next
  case (Cons a w')
  then show ?thesis by (cases w') (auto simp add: dotcount_def split: if_splits)
qed

lemma lastIndexOf_ge: "- 1 \<le> StringPrototypeLastIndexOf w c"
  by (induction w) (auto simp add: Let_def)

lemma lastIndexOf_absent: "c \<notin> set w \<Longrightarrow> StringPrototypeLastIndexOf w c = - 1"
  by (induction w) (auto simp add: Let_def)

lemma lastIndexOf_append:
  "StringPrototypeLastIndexOf (a @ b) c =
     (if StringPrototypeLastIndexOf b c \<ge> 0 then int (length a) + StringPrototypeLastIndexOf b c else StringPrototypeLastIndexOf a c)"
  using lastIndexOf_ge [of b c] by (induction a) (auto simp add: Let_def)

lemma lastIndexOf_last_slash:
  "c \<notin> set w \<Longrightarrow> StringPrototypeLastIndexOf (a @ c # w) c = int (length a)"
  by (simp add: lastIndexOf_append lastIndexOf_absent Let_def)

lemma join_snoc: "join sep (xs @ [x]) = (if xs = [] then x else join sep xs @ sep @ x)"
  by (induction sep xs rule: join.induct) auto

lemma slice_prefix: "StringPrototypeSlice (a @ b) 0 (int (length a)) = a"
  by (simp add: StringPrototypeSlice_def Let_def)

lemma splitSlash_snoc:
  "splitSlash (s @ [c]) =
     (if c = CHAR_FORWARD_SLASH then splitSlash s @ [[]]
      else butlast (splitSlash s) @ [last (splitSlash s) @ [c]])"
proof (induction s)
  case Nil
  then show ?case by simp
next
  case (Cons a s)
  obtain seg segs where sp: "splitSlash s = seg # segs"
    by (cases "splitSlash s") simp_all
  show ?case
  proof (cases "c = CHAR_FORWARD_SLASH")
    case True
    with Cons sp show ?thesis by (auto split: list.splits)
  next
    case False
    with Cons sp show ?thesis by (cases segs rule: rev_cases) (auto split: list.splits)
  qed
qed

lemma last_splitSlash_suffix: "\<exists>a. s = a @ last (splitSlash s)"
proof (induction s rule: rev_induct)
  case Nil
  then show ?case by simp
next
  case (snoc c s)
  then obtain a where a: "s = a @ last (splitSlash s)" by blast
  show ?case
  proof (cases "c = CHAR_FORWARD_SLASH")
    case True
    then show ?thesis by (simp add: splitSlash_snoc)
  next
    case False
    have "s @ [c] = a @ (last (splitSlash s) @ [c])" using a by simp
    with False show ?thesis by (simp add: splitSlash_snoc) blast
  qed
qed

lemma slice_current:
  assumes "i \<le> length path" and "cur = last (splitSlash (take i path))"
  shows "StringPrototypeSlice path (int i - 1 - int (length cur) + 1) (int i) = cur"
proof -
  obtain a where a: "take i path = a @ cur"
    using last_splitSlash_suffix [of "take i path"] assms(2) by blast
  then have len: "length a + length cur = i" using assms(1)
    by (metis length_append length_take min.absorb2)
  have "path = (a @ cur) @ drop i path" using a by (metis append_take_drop_id)
  then have p: "path = a @ cur @ drop i path" by simp
  have "StringPrototypeSlice path (int (length a)) (int (length a) + int (length cur)) = cur"
    by (subst p) (simp add: StringPrototypeSlice_def Let_def)
  moreover have "int i - 1 - int (length cur) + 1 = int (length a)" using len by simp
  moreover have "int i = int (length a) + int (length cur)" using len by simp
  ultimately show ?thesis by simp
qed


lemma body_char:
  "c \<noteq> CHAR_FORWARD_SLASH \<Longrightarrow>
   normalizeString_body path a j (absState stack cur i c) = absState stack (cur @ [c]) (i + 1) c"
  by (simp add: normalizeString_body_def absState_def isPosixPathSeparator_def dotcount_snoc)

lemma join_good_nonempty:
  "stack \<noteq> [] \<Longrightarrow> \<forall>s \<in> set stack. goodSeg s \<Longrightarrow> join [CHAR_FORWARD_SLASH] stack \<noteq> []"
  by (rule join_nonempty) (auto simp add: goodSeg_def)

lemma join_good_Nil:
  "\<forall>s \<in> set stack. goodSeg s \<Longrightarrow> join [CHAR_FORWARD_SLASH] stack = [] \<longleftrightarrow> stack = []"
  using join_good_nonempty [of stack] by auto

lemma lastIndexOf_join:
  "\<forall>s \<in> set (ys @ [x]). goodSeg s \<Longrightarrow>
   StringPrototypeLastIndexOf (join [CHAR_FORWARD_SLASH] (ys @ [x])) CHAR_FORWARD_SLASH =
     (if ys = [] then - 1 else int (length (join [CHAR_FORWARD_SLASH] ys)))"
  by (simp add: join_snoc lastIndexOf_absent lastIndexOf_last_slash goodSeg_def)

lemma seglen_join:
  assumes "ys \<noteq> []" and "\<forall>s \<in> set ys. goodSeg s"
  shows "int (length (join [CHAR_FORWARD_SLASH] ys)) - 1 -
           StringPrototypeLastIndexOf (join [CHAR_FORWARD_SLASH] ys) CHAR_FORWARD_SLASH =
         int (length (last ys))"
proof -
  obtain zs y where ys: "ys = zs @ [y]" using assms(1) by (cases ys rule: rev_cases) auto
  have "StringPrototypeLastIndexOf (join [CHAR_FORWARD_SLASH] (zs @ [y])) CHAR_FORWARD_SLASH =
     (if zs = [] then - 1 else int (length (join [CHAR_FORWARD_SLASH] zs)))"
    using assms(2) unfolding ys by (rule lastIndexOf_join)
  then show ?thesis by (simp add: ys join_snoc)
qed

lemma body_sep_empty:
  "normalizeString_body path a i (absState stack [] i CHAR_FORWARD_SLASH) =
     absState (segStep a stack []) [] (i + 1) CHAR_FORWARD_SLASH"
  by (simp add: normalizeString_body_def absState_def isPosixPathSeparator_def segStep_def)

lemma body_sep_dot:
  "normalizeString_body path a i (absState stack [CHAR_DOT] i CHAR_FORWARD_SLASH) =
     absState (segStep a stack [CHAR_DOT]) [] (i + 1) CHAR_FORWARD_SLASH"
  by (simp add: normalizeString_body_def absState_def isPosixPathSeparator_def segStep_def dotcount_def)

lemma body_sep_push:
  assumes "cur \<noteq> []" "cur \<noteq> [CHAR_DOT]" "cur \<noteq> [CHAR_DOT, CHAR_DOT]"
    and "\<forall>s \<in> set stack. goodSeg s"
    and "StringPrototypeSlice path (i - 1 - int (length cur) + 1) i = cur"
  shows "normalizeString_body path a i (absState stack cur i CHAR_FORWARD_SLASH) =
     absState (segStep a stack cur) [] (i + 1) CHAR_FORWARD_SLASH"
proof -
  have d: "dotcount cur \<noteq> 1" "dotcount cur \<noteq> 2"
    using assms(2,3) by (simp_all add: dotcount_1 dotcount_2)
  have l: "i - 1 - int (length cur) \<noteq> i - 1" using assms(1) by simp
  have s: "segStep a stack cur = stack @ [cur]" using assms(1-3) by (simp add: segStep_def)
  show ?thesis
    using d l assms(5) join_good_Nil [OF assms(4)]
    by (simp add: normalizeString_body_def absState_def isPosixPathSeparator_def s join_snoc)
qed


lemma lastIsNotDotDot_abs:
  assumes "\<forall>s \<in> set stack. goodSeg s"
  shows "lastIsNotDotDot (absState stack cur i c) \<longleftrightarrow>
           \<not> (stack \<noteq> [] \<and> last stack = [CHAR_DOT, CHAR_DOT])"
proof (cases stack rule: rev_cases)
  case Nil
  then show ?thesis by (simp add: lastIsNotDotDot_def absState_def)
next
  case (snoc ys x)
  define pre where "pre = (if ys = [] then [] else join [CHAR_FORWARD_SLASH] ys @ [CHAR_FORWARD_SLASH])"
  have r: "join [CHAR_FORWARD_SLASH] stack = pre @ x"
    by (simp add: snoc join_snoc pre_def)
  have ls: "stack \<noteq> []" "last stack = x" using snoc by simp_all
  have sel: "res (absState stack cur i c) = pre @ x"
    "lastSegmentLength (absState stack cur i c) = int (length x)"
    using ls by (simp_all add: absState_def r)
  show ?thesis
  proof (cases "length x = 2")
    case False
    then have "x \<noteq> [CHAR_DOT, CHAR_DOT]" by auto
    with False ls show ?thesis unfolding lastIsNotDotDot_def sel by simp
  next
    case True
    then obtain u v where x: "x = [u, v]"
      by (cases x; cases "tl x") auto
    have "(pre @ [u, v]) ! (length (pre @ [u, v]) - 1) = v"
      by (simp add: nth_append)
    moreover have "(pre @ [u, v]) ! (length (pre @ [u, v]) - 2) = u"
      by (simp add: nth_append)
    ultimately show ?thesis
      using ls(1) unfolding lastIsNotDotDot_def sel ls(2) x by auto
  qed
qed

lemma body_sep_dotdot:
  assumes g: "\<forall>s \<in> set stack. goodSeg s"
  shows "normalizeString_body path a i (absState stack [CHAR_DOT, CHAR_DOT] i CHAR_FORWARD_SLASH) =
     absState (segStep a stack [CHAR_DOT, CHAR_DOT]) [] (i + 1) CHAR_FORWARD_SLASH"
proof -
  let ?st = "absState stack [CHAR_DOT, CHAR_DOT] i CHAR_FORWARD_SLASH"
  have sel: "code ?st = CHAR_FORWARD_SLASH" "lastSlash ?st = i - 3" "dots ?st = 2"
    "res ?st = join [CHAR_FORWARD_SLASH] stack"
    by (simp_all add: absState_def dotcount_def)
  have nd: "lastIsNotDotDot ?st \<longleftrightarrow> \<not> (stack \<noteq> [] \<and> last stack = [CHAR_DOT, CHAR_DOT])"
    using g by (rule lastIsNotDotDot_abs)
  have b: "normalizeString_body path a i ?st =
     (if lastIsNotDotDot ?st \<and> length (res ?st) > 2 then
        (let lastSlashIndex = StringPrototypeLastIndexOf (res ?st) CHAR_FORWARD_SLASH in
         if lastSlashIndex = - 1 then
           ?st\<lparr>res := [], lastSegmentLength := 0, lastSlash := i, dots := 0\<rparr>
         else
           (let res' = StringPrototypeSlice (res ?st) 0 lastSlashIndex in
            ?st\<lparr>res := res',
               lastSegmentLength := int (length res') - 1 - StringPrototypeLastIndexOf res' CHAR_FORWARD_SLASH,
               lastSlash := i, dots := 0\<rparr>))
      else if lastIsNotDotDot ?st \<and> length (res ?st) \<noteq> 0 then
        ?st\<lparr>res := [], lastSegmentLength := 0, lastSlash := i, dots := 0\<rparr>
      else if a then
        ?st\<lparr>res := res ?st @ (if length (res ?st) > 0 then [CHAR_FORWARD_SLASH, CHAR_DOT, CHAR_DOT]
                             else [CHAR_DOT, CHAR_DOT]),
           lastSegmentLength := 2, lastSlash := i, dots := 0\<rparr>
      else ?st\<lparr>lastSlash := i, dots := 0\<rparr>)"
    unfolding normalizeString_body_def [of path a i ?st] by (simp only: sel isPosixPathSeparator_def) simp
  show ?thesis
  proof (cases stack rule: rev_cases)
    case Nil
    then show ?thesis
      unfolding b nd by (simp add: absState_def segStep_def)
  next
    case (snoc ys x)
    have gx: "goodSeg x" and gys: "\<forall>s \<in> set ys. goodSeg s" using g snoc by auto
    show ?thesis
    proof (cases "x = [CHAR_DOT, CHAR_DOT]")
      case True
      have ne: "join [CHAR_FORWARD_SLASH] stack \<noteq> []"
        using g snoc by (intro join_good_nonempty) auto
      have sne: "stack \<noteq> []" using snoc by simp
      have j: "join [CHAR_FORWARD_SLASH] (stack @ [[CHAR_DOT, CHAR_DOT]]) =
            join [CHAR_FORWARD_SLASH] stack @ [CHAR_FORWARD_SLASH, CHAR_DOT, CHAR_DOT]"
        using sne by (simp add: join_snoc)
      have s: "segStep a stack [CHAR_DOT, CHAR_DOT] = (if a then stack @ [[CHAR_DOT, CHAR_DOT]] else stack)"
        using snoc True by (simp add: segStep_def)
      have nd': "\<not> lastIsNotDotDot ?st" using nd snoc True by simp
      show ?thesis
        unfolding b s using nd' ne j by (simp add: absState_def)
    next
      case False
      have s: "segStep a stack [CHAR_DOT, CHAR_DOT] = ys"
        using snoc False by (simp add: segStep_def)
      have nd': "lastIsNotDotDot ?st" using nd snoc False by simp
      show ?thesis
      proof (cases "ys = []")
        case True
        have r: "join [CHAR_FORWARD_SLASH] stack = x" using snoc True by simp
        have li: "StringPrototypeLastIndexOf x CHAR_FORWARD_SLASH = - 1"
          using gx by (simp add: lastIndexOf_absent goodSeg_def)
        have xne: "x \<noteq> []" using gx by (simp add: goodSeg_def)
        show ?thesis
          unfolding b s using nd' xne li True by (simp add: absState_def r Let_def)
      next
        case ysne: False
        have r: "join [CHAR_FORWARD_SLASH] stack = join [CHAR_FORWARD_SLASH] ys @ CHAR_FORWARD_SLASH # x"
          using snoc ysne by (simp add: join_snoc)
        have jne: "join [CHAR_FORWARD_SLASH] ys \<noteq> []"
          using ysne gys by (rule join_good_nonempty)
        have xne: "x \<noteq> []" using gx by (simp add: goodSeg_def)
        have len: "length (join [CHAR_FORWARD_SLASH] stack) > 2"
          using jne xne by (cases "join [CHAR_FORWARD_SLASH] ys"; cases x) (simp_all add: r)
        have li: "StringPrototypeLastIndexOf (join [CHAR_FORWARD_SLASH] stack) CHAR_FORWARD_SLASH =
            int (length (join [CHAR_FORWARD_SLASH] ys))"
          using gx by (simp add: r lastIndexOf_last_slash goodSeg_def)
        have sl: "StringPrototypeSlice (join [CHAR_FORWARD_SLASH] stack) 0
            (int (length (join [CHAR_FORWARD_SLASH] ys))) = join [CHAR_FORWARD_SLASH] ys"
          unfolding r by (rule slice_prefix)
        have sg: "int (length (join [CHAR_FORWARD_SLASH] ys)) - 1 -
           StringPrototypeLastIndexOf (join [CHAR_FORWARD_SLASH] ys) CHAR_FORWARD_SLASH =
           int (length (last ys))"
          using ysne gys by (rule seglen_join)
        show ?thesis
          unfolding b s using nd' len li sl sg ysne
          by (simp add: absState_def Let_def)
      qed
    qed
  qed
qed

lemma body_sep:
  assumes "\<forall>s \<in> set stack. goodSeg s"
    and "StringPrototypeSlice path (i - 1 - int (length cur) + 1) i = cur"
  shows "normalizeString_body path a i (absState stack cur i CHAR_FORWARD_SLASH) =
     absState (segStep a stack cur) [] (i + 1) CHAR_FORWARD_SLASH"
proof -
  consider "cur = []" | "cur = [CHAR_DOT]" | "cur = [CHAR_DOT, CHAR_DOT]"
    | "cur \<noteq> []" "cur \<noteq> [CHAR_DOT]" "cur \<noteq> [CHAR_DOT, CHAR_DOT]" by blast
  then show ?thesis
  proof cases
    case 1
    then show ?thesis by (simp add: body_sep_empty)
  next
    case 2
    then show ?thesis by (simp add: body_sep_dot)
  next
    case 3
    then show ?thesis using assms(1) by (simp add: body_sep_dotdot)
  next
    case 4
    then show ?thesis using assms by (rule body_sep_push)
  qed
qed

lemma segStep_good:
  "\<forall>s \<in> set stack. goodSeg s \<Longrightarrow> CHAR_FORWARD_SLASH \<notin> set seg \<Longrightarrow>
   \<forall>s \<in> set (segStep a stack seg). goodSeg s"
  by (auto simp add: segStep_def goodSeg_def dest: in_set_butlastD)

lemma foldl_segStep_good:
  "\<forall>s \<in> set stack. goodSeg s \<Longrightarrow> \<forall>s \<in> set segs. CHAR_FORWARD_SLASH \<notin> set s \<Longrightarrow>
   \<forall>s \<in> set (foldl (segStep a) stack segs). goodSeg s"
proof (induction segs arbitrary: stack)
  case Nil
  then show ?case by simp
next
  case (Cons seg segs)
  have "\<forall>s \<in> set (segStep a stack seg). goodSeg s"
    using Cons.prems by (intro segStep_good) auto
  then show ?case using Cons.IH Cons.prems by simp
qed


lemma stackAt_good: "\<forall>s \<in> set (stackAt a path i). goodSeg s"
  unfolding stackAt_def
  by (rule foldl_segStep_good) (auto dest: in_set_butlastD splitSlash_no_slash)

lemma curAt_no_slash: "CHAR_FORWARD_SLASH \<notin> set (curAt path i)"
  unfolding curAt_def by (rule splitSlash_no_slash [of _ "take i path"]) simp

lemma segStep_at:
  "segStep a (stackAt a path i) (curAt path i) = foldl (segStep a) [] (splitSlash (take i path))"
proof -
  let ?S = "splitSlash (take i path)"
  have e: "foldl (segStep a) [] (butlast ?S @ [last ?S]) =
      segStep a (foldl (segStep a) [] (butlast ?S)) (last ?S)"
    by (simp only: foldl_append foldl.simps)
  have "butlast ?S @ [last ?S] = ?S" by simp
  with e show ?thesis unfolding stackAt_def curAt_def by simp
qed

lemma at_Suc:
  assumes "i < length path"
  shows "stackAt a path (Suc i) =
           (if path ! i = CHAR_FORWARD_SLASH then segStep a (stackAt a path i) (curAt path i)
            else stackAt a path i)"
    and "curAt path (Suc i) =
           (if path ! i = CHAR_FORWARD_SLASH then [] else curAt path i @ [path ! i])"
proof -
  have t: "take (Suc i) path = take i path @ [path ! i]"
    using assms by (rule take_Suc_conv_app_nth)
  show "stackAt a path (Suc i) =
           (if path ! i = CHAR_FORWARD_SLASH then segStep a (stackAt a path i) (curAt path i)
            else stackAt a path i)"
    by (simp add: segStep_at) (simp add: stackAt_def t splitSlash_snoc)
  show "curAt path (Suc i) =
           (if path ! i = CHAR_FORWARD_SLASH then [] else curAt path i @ [path ! i])"
    by (simp add: curAt_def t splitSlash_snoc)
qed

lemma body_at:
  assumes "i < length path"
  shows "normalizeString_body path a (int i) (absState (stackAt a path i) (curAt path i) (int i) (path ! i)) =
         absState (stackAt a path (Suc i)) (curAt path (Suc i)) (int (Suc i)) (path ! i)"
proof (cases "path ! i = CHAR_FORWARD_SLASH")
  case True
  have le: "i \<le> length path" using assms by simp
  have sl: "StringPrototypeSlice path (int i - 1 - int (length (curAt path i)) + 1) (int i) = curAt path i"
    using le by (rule slice_current) (simp add: curAt_def)
  have "normalizeString_body path a (int i) (absState (stackAt a path i) (curAt path i) (int i) CHAR_FORWARD_SLASH) =
      absState (segStep a (stackAt a path i) (curAt path i)) [] (int i + 1) CHAR_FORWARD_SLASH"
    using stackAt_good sl by (rule body_sep)
  then show ?thesis using True by (simp add: at_Suc [OF assms] add.commute)
next
  case False
  then show ?thesis by (simp add: at_Suc [OF assms] body_char add.commute)
qed

lemma absState_code [simp]: "absState stack cur i c\<lparr>code := d\<rparr> = absState stack cur i d"
  by (simp add: absState_def)

lemma loop_correct:
  assumes "i \<le> length path" and "0 < i \<longrightarrow> c = path ! (i - 1)"
  shows "normalizeString_loop path a i (absState (stackAt a path i) (curAt path i) (int i) c) =
         join [CHAR_FORWARD_SLASH] (foldl (segStep a) [] (splitSlash path))"
  using assms
proof (induction "length path - i" arbitrary: i c)
  case 0
  then have i: "i = length path" by simp
  have fin: "foldl (segStep a) [] (splitSlash path) = segStep a (stackAt a path i) (curAt path i)"
    by (simp add: segStep_at i)
  show ?case
  proof (cases "c = CHAR_FORWARD_SLASH")
    case True
    have "curAt path i = []"
    proof (cases "i = 0")
      case True
      then show ?thesis by (simp add: curAt_def)
    next
      case False
      with 0 True have "path ! (i - 1) = CHAR_FORWARD_SLASH" by simp
      moreover have "path = take (i - 1) path @ [path ! (i - 1)]"
        using False i by (metis diff_less less_numeral_extra(1) not_gr_zero take_Suc_conv_app_nth
            take_all_iff Suc_pred' order_refl)
      ultimately have "path = take (i - 1) path @ [CHAR_FORWARD_SLASH]" by simp
      then have "splitSlash path = splitSlash (take (i - 1) path) @ [[]]"
        by (metis splitSlash_snoc)
      then show ?thesis by (simp add: curAt_def i)
    qed
    then have "segStep a (stackAt a path i) (curAt path i) = stackAt a path i"
      by (simp add: segStep_def)
    with True show ?thesis
      by (subst normalizeString_loop.simps) (simp add: i [symmetric] fin isPosixPathSeparator_def absState_def)
  next
    case False
    have le: "i \<le> length path" using i by simp
    have sl: "StringPrototypeSlice path (int i - 1 - int (length (curAt path i)) + 1) (int i) = curAt path i"
      using le by (rule slice_current) (simp add: curAt_def)
    have b: "normalizeString_body path a (int i) (absState (stackAt a path i) (curAt path i) (int i) CHAR_FORWARD_SLASH) =
      absState (segStep a (stackAt a path i) (curAt path i)) [] (int i + 1) CHAR_FORWARD_SLASH"
      using stackAt_good sl by (rule body_sep)
    have c: "code (absState (stackAt a path i) (curAt path i) (int i) c) = c"
      by (simp add: absState_def)
    have "normalizeString_loop path a i (absState (stackAt a path i) (curAt path i) (int i) c) =
        normalizeString_loop path a (i + 1) (absState (segStep a (stackAt a path i) (curAt path i)) [] (int i + 1) CHAR_FORWARD_SLASH)"
      using False by (subst normalizeString_loop.simps) (simp add: i [symmetric] c b isPosixPathSeparator_def)
    also have "\<dots> = join [CHAR_FORWARD_SLASH] (segStep a (stackAt a path i) (curAt path i))"
      by (subst normalizeString_loop.simps) (simp add: i [symmetric] absState_def)
    finally show ?thesis by (simp add: fin)
  qed
next
  case (Suc n)
  then have lt: "i < length path" by simp
  have "normalizeString_loop path a i (absState (stackAt a path i) (curAt path i) (int i) c) =
      normalizeString_loop path a (Suc i) (absState (stackAt a path (Suc i)) (curAt path (Suc i)) (int (Suc i)) (path ! i))"
    using lt by (subst normalizeString_loop.simps) (simp add: body_at del: of_nat_Suc)
  also have "\<dots> = join [CHAR_FORWARD_SLASH] (foldl (segStep a) [] (splitSlash path))"
    using Suc.hyps(2) lt by (intro Suc.hyps(1)) simp_all
  finally show ?case .
qed

lemma normalizeString_segments:
  "normalizeString path a = join [CHAR_FORWARD_SLASH] (foldl (segStep a) [] (splitSlash path))"
proof -
  have "\<lparr>res = [], lastSegmentLength = 0, lastSlash = - 1, dots = 0, code = 0\<rparr> =
        absState (stackAt a path 0) (curAt path 0) (int 0) 0"
    by (simp add: absState_def stackAt_def curAt_def)
  then show ?thesis
    unfolding normalizeString_def using loop_correct [of 0 path 0 a] by simp
qed

lemma foldl_segStep_clean:
  "\<forall>s \<in> set segs. cleanSeg s \<Longrightarrow> foldl (segStep a) st segs = st @ segs"
  by (induction segs arbitrary: st) (auto simp add: segStep_def cleanSeg_def)

lemma segStep_keeps_clean:
  "\<forall>s \<in> set st. cleanSeg s \<Longrightarrow> CHAR_FORWARD_SLASH \<notin> set seg \<Longrightarrow>
   \<forall>s \<in> set (segStep False st seg). cleanSeg s"
  by (auto simp add: segStep_def cleanSeg_def dest: in_set_butlastD)

lemma foldl_segStep_keeps_clean:
  "\<forall>s \<in> set st. cleanSeg s \<Longrightarrow> \<forall>s \<in> set segs. CHAR_FORWARD_SLASH \<notin> set s \<Longrightarrow>
   \<forall>s \<in> set (foldl (segStep False) st segs). cleanSeg s"
proof (induction segs arbitrary: st)
  case Nil
  then show ?case by simp
next
  case (Cons seg segs)
  have "\<forall>s \<in> set (segStep False st seg). cleanSeg s"
    using Cons.prems by (intro segStep_keeps_clean) auto
  then show ?case using Cons.IH Cons.prems by simp
qed

lemma resolved_clean:
  "\<forall>s \<in> set (foldl (segStep False) [] (splitSlash p)). cleanSeg s"
  by (rule foldl_segStep_keeps_clean) (auto dest: splitSlash_no_slash)

lemma segStep_absolute_walk:
  "\<forall>s \<in> set st. cleanSeg s \<Longrightarrow>
   segStep False st seg = (if seg = [] then st else walk st [seg])"
  by (cases st rule: rev_cases) (auto simp add: segStep_def cleanSeg_def)

lemma walk_append: "walk dir (xs @ ys) = walk (walk dir xs) ys"
  by (induction xs arbitrary: dir) auto

lemma foldl_segStep_walk:
  "\<forall>s \<in> set st. cleanSeg s \<Longrightarrow> \<forall>s \<in> set segs. CHAR_FORWARD_SLASH \<notin> set s \<Longrightarrow>
   foldl (segStep False) st segs = walk st (filter (\<lambda>seg. seg \<noteq> []) segs)"
proof (induction segs arbitrary: st)
  case Nil
  then show ?case by simp
next
  case (Cons seg segs)
  have c: "\<forall>s \<in> set (segStep False st seg). cleanSeg s"
    using Cons.prems by (intro segStep_keeps_clean) auto
  have "foldl (segStep False) (segStep False st seg) segs =
        walk (segStep False st seg) (filter (\<lambda>seg. seg \<noteq> []) segs)"
    using Cons.IH [OF c] Cons.prems by simp
  then show ?case
    using Cons.prems(1) by (simp add: segStep_absolute_walk)
qed

lemma normalizeString_absolute:
  "normalizeString p False = join [CHAR_FORWARD_SLASH] (walk [] (components p))"
  by (simp add: normalizeString_segments components_def foldl_segStep_walk splitSlash_no_slash)

lemma walk_clean: "\<forall>s \<in> set (walk [] (components p)). cleanSeg s"
  using resolved_clean [of p]
  by (simp add: components_def foldl_segStep_walk splitSlash_no_slash)

lemma posix_normalize_absolute:
  assumes "startsWith p [CHAR_FORWARD_SLASH]"
  shows "posix_normalize p =
     (let dir = walk [] (components p) in
      if dir = [] then [CHAR_FORWARD_SLASH]
      else [CHAR_FORWARD_SLASH] @ join [CHAR_FORWARD_SLASH] dir @
           (if last p = CHAR_FORWARD_SLASH then [CHAR_FORWARD_SLASH] else []))"
proof -
  from assms obtain p' where p: "p = CHAR_FORWARD_SLASH # p'"
    by (auto simp add: startsWith_def prefix_def)
  let ?dir = "walk [] (components p)"
  have clean: "\<forall>s \<in> set ?dir. cleanSeg s" by (rule walk_clean)
  have nil: "join [CHAR_FORWARD_SLASH] ?dir = [] \<longleftrightarrow> ?dir = []"
  proof
    assume j: "join [CHAR_FORWARD_SLASH] ?dir = []"
    show "?dir = []"
    proof (rule ccontr)
      assume ne: "?dir \<noteq> []"
      then have "last ?dir \<in> set ?dir" by simp
      with clean have "last ?dir \<noteq> []" by (auto simp add: cleanSeg_def)
      with ne have "join [CHAR_FORWARD_SLASH] ?dir \<noteq> []" by (rule join_nonempty)
      with j show False by simp
    qed
  qed simp
  show ?thesis
    using nil by (simp add: posix_normalize_def normalizeString_absolute Let_def p)
qed

lemma splitSlash_append:
  "splitSlash (a @ CHAR_FORWARD_SLASH # b) = splitSlash a @ splitSlash b"
  by (induction a) (auto split: list.splits)

lemma hasDoubleSlash_decomp:
  "hasDoubleSlash r \<Longrightarrow> \<exists>a b. r = a @ CHAR_FORWARD_SLASH # CHAR_FORWARD_SLASH # b"
proof (induction r rule: hasDoubleSlash.induct)
  case (3 c d cs)
  show ?case
  proof (cases "c = CHAR_FORWARD_SLASH \<and> d = CHAR_FORWARD_SLASH")
    case True
    then have "c # d # cs = [] @ CHAR_FORWARD_SLASH # CHAR_FORWARD_SLASH # cs" by simp
    then show ?thesis by blast
  next
    case False
    with 3 obtain a b where "d # cs = a @ CHAR_FORWARD_SLASH # CHAR_FORWARD_SLASH # b" by auto
    then have "c # d # cs = (c # a) @ CHAR_FORWARD_SLASH # CHAR_FORWARD_SLASH # b" by simp
    then show ?thesis by blast
  qed
qed simp_all

lemma hasDoubleSlash_interior:
  assumes "hasDoubleSlash r"
  shows "[] \<in> set (butlast (tl (splitSlash r)))"
proof -
  from hasDoubleSlash_decomp [OF assms] obtain a b
    where r: "r = a @ CHAR_FORWARD_SLASH # CHAR_FORWARD_SLASH # b" by blast
  have "splitSlash r = splitSlash a @ [] # splitSlash b"
    by (simp add: r splitSlash_append)
  moreover have "tl (splitSlash a @ [] # splitSlash b) = tl (splitSlash a) @ [] # splitSlash b"
    by simp
  ultimately show ?thesis by (simp add: butlast_append)
qed

lemma walk_clean_id: "\<forall>s \<in> set cs. cleanSeg s \<Longrightarrow> walk dir cs = dir @ cs"
  by (induction cs arbitrary: dir) (auto simp add: cleanSeg_def)

lemma normalized_shape:
  assumes "\<forall>s \<in> set dir. cleanSeg s" and "dir \<noteq> []"
    and "trail = [] \<or> trail = [CHAR_FORWARD_SLASH]"
  defines "r \<equiv> [CHAR_FORWARD_SLASH] @ join [CHAR_FORWARD_SLASH] dir @ trail"
  shows "splitSlash r = [] # dir @ (if trail = [] then [] else [[]])"
    and "components r = dir"
    and "last r = CHAR_FORWARD_SLASH \<longleftrightarrow> trail \<noteq> []"
    and "\<not> hasDoubleSlash r"
proof -
  have ns: "\<forall>s \<in> set dir. CHAR_FORWARD_SLASH \<notin> set s" and ne: "\<forall>s \<in> set dir. s \<noteq> []"
    using assms(1) by (auto simp add: cleanSeg_def)
  show sp: "splitSlash r = [] # dir @ (if trail = [] then [] else [[]])"
    using assms(3) splitSlash_join [OF assms(2) ns] splitSlash_join_slash [OF assms(2) ns]
    by (auto simp add: r_def)
  show "components r = dir"
    using ne by (auto simp add: components_def sp filter_id_conv)
  have l: "last dir \<in> set dir" using assms(2) by simp
  then have lne: "last dir \<noteq> []" using ne by blast
  have jne: "join [CHAR_FORWARD_SLASH] dir \<noteq> []"
    using assms(2) lne by (rule join_nonempty)
  have "last (join [CHAR_FORWARD_SLASH] dir) = last (last dir)"
    using assms(2) lne by (rule last_join)
  moreover have "last (last dir) \<in> set (last dir)" using lne by simp
  ultimately have "last (join [CHAR_FORWARD_SLASH] dir) \<noteq> CHAR_FORWARD_SLASH"
    using ns l by metis
  then show "last r = CHAR_FORWARD_SLASH \<longleftrightarrow> trail \<noteq> []"
    using assms(3) jne by (auto simp add: r_def)
  show "\<not> hasDoubleSlash r"
  proof
    assume "hasDoubleSlash r"
    then have "[] \<in> set (butlast (tl (splitSlash r)))" by (rule hasDoubleSlash_interior)
    then have "[] \<in> set dir"
      by (auto simp add: sp butlast_append split: if_splits dest: in_set_butlastD)
    with ne show False by blast
  qed
qed

lemma posix_normalize_idem:
  assumes "startsWith p [CHAR_FORWARD_SLASH]"
  shows "posix_normalize (posix_normalize p) = posix_normalize p"
    and "startsWith (posix_normalize p) [CHAR_FORWARD_SLASH]"
proof -
  let ?dir = "walk [] (components p)"
  let ?trail = "if last p = CHAR_FORWARD_SLASH then [CHAR_FORWARD_SLASH] else []"
  have clean: "\<forall>s \<in> set ?dir. cleanSeg s" by (rule walk_clean)
  have root: "posix_normalize [CHAR_FORWARD_SLASH] = [CHAR_FORWARD_SLASH]"
    by (simp add: posix_normalize_def normalizeString_segments segStep_def)
  show abs: "startsWith (posix_normalize p) [CHAR_FORWARD_SLASH]"
    by (simp add: posix_normalize_absolute [OF assms] Let_def startsWith_def)
  show "posix_normalize (posix_normalize p) = posix_normalize p"
  proof (cases "?dir = []")
    case True
    then show ?thesis by (simp add: posix_normalize_absolute [OF assms] root)
  next
    case False
    define r where "r = [CHAR_FORWARD_SLASH] @ join [CHAR_FORWARD_SLASH] ?dir @ ?trail"
    have r: "posix_normalize p = r"
      using False by (simp add: posix_normalize_absolute [OF assms] r_def)
    have t: "?trail = [] \<or> ?trail = [CHAR_FORWARD_SLASH]" by simp
    note sh = normalized_shape [OF clean False t, folded r_def]
    have "posix_normalize r =
        [CHAR_FORWARD_SLASH] @ join [CHAR_FORWARD_SLASH] ?dir @
        (if last r = CHAR_FORWARD_SLASH then [CHAR_FORWARD_SLASH] else [])"
      using abs False clean
      by (simp add: posix_normalize_absolute [OF abs [unfolded r]] sh(2) walk_clean_id)
    also have "\<dots> = r"
      using sh(3) by (simp add: r_def)
    finally show ?thesis by (simp add: r)
  qed
qed

lemma norm_example: "posix_normalize (js ''/var/mobile/../mobile/a.txt'') = js ''/var/mobile/a.txt''"
  by code_simp

text \<open>
  C6. \<open>normalizeRemotePath p\<close> fails exactly when \<open>p\<close> does not start with the
  separator, and then with the invalid-path error for \<open>p\<close>. For a \<open>p\<close> that
  starts with the separator it returns an absolute path whose components are
  those of \<open>p\<close> resolved lexically from the root, with no \<^verbatim>\<open>.\<close> and no \<^verbatim>\<open>..\<close>
  component left and no two separators side by side. The path
  \<^verbatim>\<open>/var/mobile/../mobile/a.txt\<close> gives \<^verbatim>\<open>/var/mobile/a.txt\<close>, and
  \<^verbatim>\<open>var/mobile/test.txt\<close> fails, with a message that names it.
\<close>

theorem normalizeRemotePath_spec:
  "((\<exists>e. normalizeRemotePath p = Inl e) \<longleftrightarrow> \<not> startsWith p [CHAR_FORWARD_SLASH])
   \<and> (\<not> startsWith p [CHAR_FORWARD_SLASH] \<longrightarrow> normalizeRemotePath p = Inl (InvalidPath p))
   \<and> (startsWith p [CHAR_FORWARD_SLASH] \<longrightarrow>
        (\<exists>r. normalizeRemotePath p = Inr r
           \<and> startsWith r [CHAR_FORWARD_SLASH]
           \<and> components r = walk [] (components p)
           \<and> [CHAR_DOT] \<notin> set (components r)
           \<and> [CHAR_DOT, CHAR_DOT] \<notin> set (components r)
           \<and> \<not> hasDoubleSlash r))
   \<and> normalizeRemotePath (js ''/var/mobile/../mobile/a.txt'') = Inr (js ''/var/mobile/a.txt'')
   \<and> normalizeRemotePath (js ''var/mobile/test.txt'') = Inl (InvalidPath (js ''var/mobile/test.txt''))
   \<and> message (InvalidPath (js ''var/mobile/test.txt'')) =
       js ''Expected absolute remote path, got: var/mobile/test.txt''"
proof -
  have a: "(\<exists>e. normalizeRemotePath p = Inl e) \<longleftrightarrow> \<not> startsWith p [CHAR_FORWARD_SLASH]"
    by (simp add: normalizeRemotePath_def)
  have b: "\<not> startsWith p [CHAR_FORWARD_SLASH] \<longrightarrow> normalizeRemotePath p = Inl (InvalidPath p)"
    by (simp add: normalizeRemotePath_def)
  have c: "\<exists>r. normalizeRemotePath p = Inr r
           \<and> startsWith r [CHAR_FORWARD_SLASH]
           \<and> components r = walk [] (components p)
           \<and> [CHAR_DOT] \<notin> set (components r)
           \<and> [CHAR_DOT, CHAR_DOT] \<notin> set (components r)
           \<and> \<not> hasDoubleSlash r" if abs: "startsWith p [CHAR_FORWARD_SLASH]"
  proof -
    let ?dir = "walk [] (components p)"
    let ?trail = "if last p = CHAR_FORWARD_SLASH then [CHAR_FORWARD_SLASH] else []"
    have clean: "\<forall>s \<in> set ?dir. cleanSeg s" by (rule walk_clean)
    then have nodots: "[CHAR_DOT] \<notin> set ?dir" "[CHAR_DOT, CHAR_DOT] \<notin> set ?dir"
      by (auto simp add: cleanSeg_def)
    have sw: "startsWith (posix_normalize p) [CHAR_FORWARD_SLASH]"
      using abs by (rule posix_normalize_idem(2))
    have shape: "components (posix_normalize p) = ?dir \<and> \<not> hasDoubleSlash (posix_normalize p)"
    proof (cases "?dir = []")
      case True
      then have "posix_normalize p = [CHAR_FORWARD_SLASH]"
        by (simp add: posix_normalize_absolute [OF abs])
      with True show ?thesis by (simp add: components_def)
    next
      case False
      have t: "?trail = [] \<or> ?trail = [CHAR_FORWARD_SLASH]" by simp
      have "posix_normalize p = [CHAR_FORWARD_SLASH] @ join [CHAR_FORWARD_SLASH] ?dir @ ?trail"
        using False by (simp add: posix_normalize_absolute [OF abs])
      with normalized_shape(2,4) [OF clean False t] show ?thesis by simp
    qed
    show ?thesis
      using abs sw shape nodots by (simp add: normalizeRemotePath_def)
  qed
  have d: "normalizeRemotePath (js ''/var/mobile/../mobile/a.txt'') = Inr (js ''/var/mobile/a.txt'')"
    by code_simp
  have e: "normalizeRemotePath (js ''var/mobile/test.txt'') = Inl (InvalidPath (js ''var/mobile/test.txt''))"
    by code_simp
  have f: "message (InvalidPath (js ''var/mobile/test.txt'')) =
       js ''Expected absolute remote path, got: var/mobile/test.txt''"
    by code_simp
  from a b c d e f show ?thesis by blast
qed

lemma norm_witness_abs: "startsWith (js ''//tmp/./x/../y/'') [CHAR_FORWARD_SLASH]"
  by code_simp

lemma norm_witness_rel: "\<not> startsWith (js ''tmp/x'') [CHAR_FORWARD_SLASH]"
  by code_simp

lemma norm_witness_val: "normalizeRemotePath (js ''//tmp/./x/../y/'') = Inr (js ''/tmp/y/'')"
  by code_simp

lemma norm_witness_comp: "components (js ''/tmp/y/'') = [js ''tmp'', js ''y'']"
  by code_simp

theorem normalizeRemotePath_spec_witness:
  "startsWith (js ''//tmp/./x/../y/'') [CHAR_FORWARD_SLASH]
   \<and> normalizeRemotePath (js ''//tmp/./x/../y/'') = Inr (js ''/tmp/y/'')
   \<and> walk [] (components (js ''//tmp/./x/../y/'')) = [js ''tmp'', js ''y'']
   \<and> \<not> hasDoubleSlash (js ''/tmp/y/'')
   \<and> \<not> startsWith (js ''tmp/x'') [CHAR_FORWARD_SLASH]
   \<and> normalizeRemotePath (js ''tmp/x'') = Inl (InvalidPath (js ''tmp/x''))"
  using normalizeRemotePath_spec [of "js ''//tmp/./x/../y/''"] normalizeRemotePath_spec [of "js ''tmp/x''"]
    norm_witness_abs norm_witness_rel norm_witness_val norm_witness_comp
  by auto

text \<open>
  C9. Normalization is idempotent: for every \<open>p\<close> that starts with the
  separator, \<open>normalizeRemotePath p\<close> returns a path \<open>q\<close>, and
  \<open>normalizeRemotePath q\<close> returns \<open>q\<close> again.
\<close>

theorem normalizeRemotePath_idempotent:
  "startsWith p [CHAR_FORWARD_SLASH] \<Longrightarrow>
   \<exists>q. normalizeRemotePath p = Inr q \<and> normalizeRemotePath q = Inr q"
  using posix_normalize_idem [of p] by (simp add: normalizeRemotePath_def)

lemma idem_witness_abs: "startsWith (js ''/var//mobile/../tmp/./a/'') [CHAR_FORWARD_SLASH]"
  by code_simp

lemma idem_witness_val: "normalizeRemotePath (js ''/var//mobile/../tmp/./a/'') = Inr (js ''/var/tmp/a/'')"
  by code_simp

theorem normalizeRemotePath_idempotent_witness:
  "startsWith (js ''/var//mobile/../tmp/./a/'') [CHAR_FORWARD_SLASH]
   \<and> normalizeRemotePath (js ''/var//mobile/../tmp/./a/'') = Inr (js ''/var/tmp/a/'')
   \<and> normalizeRemotePath (js ''/var/tmp/a/'') = Inr (js ''/var/tmp/a/'')"
  using normalizeRemotePath_idempotent [OF idem_witness_abs] idem_witness_abs idem_witness_val
  by auto

section \<open>The allowlist\<close>

lemma pathWithinRoots_allowedFor: "pathWithinRoots p R \<longleftrightarrow> allowedFor p R"
  by (auto simp add: pathWithinRoots_def allowedFor_def onBoundary_def list_ex_iff startsWith_def
      prefix_def Let_def)

lemma bare_prefix_denied:
  "c \<noteq> CHAR_FORWARD_SLASH \<Longrightarrow> \<not> pathWithinRoots (posix_normalize root @ c # rest) [root]"
  by (simp add: pathWithinRoots_def startsWith_def Let_def)

lemma within_root: "pathWithinRoots (js ''/var/mobile'') [js ''/var/mobile'']"
  by code_simp

lemma within_below: "pathWithinRoots (js ''/var/mobile/x'') [js ''/var/mobile'']"
  by code_simp

lemma within_longer: "\<not> pathWithinRoots (js ''/var/mobile2'') [js ''/var/mobile'']"
  by code_simp

lemma within_shorter: "\<not> pathWithinRoots (js ''/var/mobil'') [js ''/var/mobile'']"
  by code_simp

text \<open>
  C1. For every path \<open>p\<close> and root set \<open>R\<close>, \<open>pathWithinRoots p R\<close> is true exactly
  when \<open>p\<close> equals the normalized form of some root of \<open>R\<close>, or is that
  normalized root followed by the separator and more. A normalized root
  followed by a character other than the separator is never within that root.
  With the root \<^verbatim>\<open>/var/mobile\<close>, the paths \<^verbatim>\<open>/var/mobile\<close> and \<^verbatim>\<open>/var/mobile/x\<close> are
  within, \<^verbatim>\<open>/var/mobile2\<close> and \<^verbatim>\<open>/var/mobil\<close> are not.
\<close>

theorem pathWithinRoots_boundary:
  "(pathWithinRoots p R \<longleftrightarrow>
      (\<exists>root \<in> set R. p = posix_normalize root \<or>
         (\<exists>rest. p = posix_normalize root @ [CHAR_FORWARD_SLASH] @ rest)))
   \<and> (\<forall>root c rest. c \<noteq> CHAR_FORWARD_SLASH \<longrightarrow>
         \<not> pathWithinRoots (posix_normalize root @ c # rest) [root])
   \<and> pathWithinRoots (js ''/var/mobile'') [js ''/var/mobile'']
   \<and> pathWithinRoots (js ''/var/mobile/x'') [js ''/var/mobile'']
   \<and> \<not> pathWithinRoots (js ''/var/mobile2'') [js ''/var/mobile'']
   \<and> \<not> pathWithinRoots (js ''/var/mobil'') [js ''/var/mobile'']"
  using pathWithinRoots_allowedFor [of p R] bare_prefix_denied
    within_root within_below within_longer within_shorter
  unfolding allowedFor_def onBoundary_def by blast

lemma within_tmp: "pathWithinRoots (js ''/tmp/a.deb'') [js ''/var/mobile'', js ''/tmp/../tmp'']"
  by code_simp

lemma norm_usr_local: "posix_normalize (js ''/usr//local'') = js ''/usr/local''"
  by code_simp

theorem pathWithinRoots_boundary_witness:
  "pathWithinRoots (js ''/tmp/a.deb'') [js ''/var/mobile'', js ''/tmp/../tmp'']
   \<and> (\<exists>root \<in> set [js ''/var/mobile'', js ''/tmp/../tmp''].
         js ''/tmp/a.deb'' = posix_normalize root \<or>
         (\<exists>rest. js ''/tmp/a.deb'' = posix_normalize root @ [CHAR_FORWARD_SLASH] @ rest))
   \<and> (0x2D :: cu) \<noteq> CHAR_FORWARD_SLASH
   \<and> \<not> pathWithinRoots (js ''/usr/local-evil/x'') [js ''/usr//local'']"
proof -
  have a: "(0x2D :: cu) \<noteq> CHAR_FORWARD_SLASH" by simp
  have b: "js ''/usr/local-evil/x'' = posix_normalize (js ''/usr//local'') @ 0x2D # js ''evil/x''"
    by (simp add: norm_usr_local) (simp add: js_def)
  from pathWithinRoots_boundary [of "js ''/tmp/a.deb''" "[js ''/var/mobile'', js ''/tmp/../tmp'']"]
  have c: "\<forall>root c rest. c \<noteq> CHAR_FORWARD_SLASH \<longrightarrow>
         \<not> pathWithinRoots (posix_normalize root @ c # rest) [root]"
    and d: "pathWithinRoots (js ''/tmp/a.deb'') [js ''/var/mobile'', js ''/tmp/../tmp''] \<longleftrightarrow>
      (\<exists>root \<in> set [js ''/var/mobile'', js ''/tmp/../tmp'']. js ''/tmp/a.deb'' = posix_normalize root \<or>
         (\<exists>rest. js ''/tmp/a.deb'' = posix_normalize root @ [CHAR_FORWARD_SLASH] @ rest))"
    by blast+
  from c a have "\<not> pathWithinRoots (posix_normalize (js ''/usr//local'') @ 0x2D # js ''evil/x'') [js ''/usr//local'']"
    by blast
  with b have e: "\<not> pathWithinRoots (js ''/usr/local-evil/x'') [js ''/usr//local'']" by simp
  from within_tmp d a e show ?thesis by blast
qed

lemma mapThrowing_absolute:
  "\<forall>p \<in> set ps. startsWith p [CHAR_FORWARD_SLASH] \<Longrightarrow>
   mapThrowing normalizeRemotePath ps = Inr (map posix_normalize ps)"
  by (induction ps) (simp_all add: normalizeRemotePath_def)

lemma mapThrowing_relative:
  "\<exists>p \<in> set ps. \<not> startsWith p [CHAR_FORWARD_SLASH] \<Longrightarrow>
   mapThrowing normalizeRemotePath ps =
     Inl (InvalidPath (the (find (\<lambda>p. \<not> startsWith p [CHAR_FORWARD_SLASH]) ps)))"
proof (induction ps)
  case Nil
  then show ?case by simp
next
  case (Cons p ps)
  show ?case
  proof (cases "startsWith p [CHAR_FORWARD_SLASH]")
    case True
    with Cons.prems have "\<exists>p \<in> set ps. \<not> startsWith p [CHAR_FORWARD_SLASH]" by simp
    with Cons.IH True show ?thesis by (simp add: normalizeRemotePath_def)
  next
    case False
    then show ?thesis by (simp add: normalizeRemotePath_def)
  qed
qed

lemma ensure_general:
  assumes "\<forall>p \<in> set ps. startsWith p [CHAR_FORWARD_SLASH]"
  shows "((\<forall>n \<in> set (map posix_normalize ps). allowedFor n R) \<longrightarrow>
            ensureAllowedWritePaths ps R = Inr (map posix_normalize ps))
       \<and> ((\<exists>n \<in> set (map posix_normalize ps). \<not> allowedFor n R) \<longrightarrow>
            ensureAllowedWritePaths ps R =
              Inl (WritePathBlocked R (filter (\<lambda>n. \<not> allowedFor n R) (map posix_normalize ps))))"
proof -
  have m: "mapThrowing normalizeRemotePath ps = Inr (map posix_normalize ps)"
    using assms by (rule mapThrowing_absolute)
  have f: "filter (\<lambda>entry. \<not> pathWithinRoots entry R) xs = filter (\<lambda>n. \<not> allowedFor n R) xs" for xs
    by (simp add: pathWithinRoots_allowedFor)
  show ?thesis
    unfolding ensureAllowedWritePaths_def m f
    by (auto simp add: Let_def filter_empty_conv)
qed

lemma ensure_example_blocked:
  "ensureAllowedWritePaths [js ''/var/mobile/a'', js ''/etc/passwd''] [js ''/var/mobile''] =
     Inl (WritePathBlocked [js ''/var/mobile''] [js ''/etc/passwd''])"
  by code_simp

lemma ensure_example_message:
  "message (WritePathBlocked [js ''/var/mobile''] [js ''/etc/passwd'']) =
     js ''Write path blocked by allowlist. Allowed roots: /var/mobile. Blocked: /etc/passwd''"
  by code_simp

lemma ensure_example_allowed:
  "ensureAllowedWritePaths [js ''/var/mobile/test.txt''] [js ''/var/mobile'', js ''/tmp''] =
     Inr [js ''/var/mobile/test.txt'']"
  by code_simp

text \<open>
  C5, as amended. For every list \<open>ps\<close> of paths that all start with the
  separator and every root set \<open>R\<close>: if every normalized element is allowed for
  \<open>R\<close> (equal to a normalized root, or that root, the separator and more), the
  call returns the normalized paths in input order; if some normalized element
  is not, it fails with the blocked-path error that carries \<open>R\<close> and all the
  normalized elements that are not allowed, in input order, and returns no
  path. The list \<^verbatim>\<open>/var/mobile/a\<close>, \<^verbatim>\<open>/etc/passwd\<close> with the root \<^verbatim>\<open>/var/mobile\<close> fails
  and reports \<^verbatim>\<open>/etc/passwd\<close>, in the error and in its message.
\<close>

theorem ensureAllowedWritePaths_all_or_nothing:
  "((\<forall>p \<in> set ps. startsWith p [CHAR_FORWARD_SLASH]) \<longrightarrow>
      ((\<forall>n \<in> set (map posix_normalize ps). allowedFor n R) \<longrightarrow>
         ensureAllowedWritePaths ps R = Inr (map posix_normalize ps))
      \<and> ((\<exists>n \<in> set (map posix_normalize ps). \<not> allowedFor n R) \<longrightarrow>
         ensureAllowedWritePaths ps R =
           Inl (WritePathBlocked R (filter (\<lambda>n. \<not> allowedFor n R) (map posix_normalize ps)))))
   \<and> ensureAllowedWritePaths [js ''/var/mobile/a'', js ''/etc/passwd''] [js ''/var/mobile''] =
       Inl (WritePathBlocked [js ''/var/mobile''] [js ''/etc/passwd''])
   \<and> message (WritePathBlocked [js ''/var/mobile''] [js ''/etc/passwd'']) =
       js ''Write path blocked by allowlist. Allowed roots: /var/mobile. Blocked: /etc/passwd''
   \<and> ensureAllowedWritePaths [js ''/var/mobile/test.txt''] [js ''/var/mobile'', js ''/tmp''] =
       Inr [js ''/var/mobile/test.txt'']"
  using ensure_general [of ps R] ensure_example_blocked ensure_example_message ensure_example_allowed
  by blast

lemma ensure_witness_abs:
  "\<forall>p \<in> set [js ''/tmp/x/../a'', js ''/etc/passwd'', js ''/var/mobile2'', js ''/var/mobile/''].
     startsWith p [CHAR_FORWARD_SLASH]"
  by code_simp

lemma ensure_witness_norm:
  "map posix_normalize [js ''/tmp/x/../a'', js ''/etc/passwd'', js ''/var/mobile2'', js ''/var/mobile/''] =
     [js ''/tmp/a'', js ''/etc/passwd'', js ''/var/mobile2'', js ''/var/mobile/'']"
  by code_simp

lemma ensure_witness_within:
  "map (\<lambda>n. pathWithinRoots n [js ''/var/mobile'', js ''/tmp''])
     [js ''/tmp/a'', js ''/etc/passwd'', js ''/var/mobile2'', js ''/var/mobile/''] =
     [True, False, False, True]"
  by code_simp

theorem ensureAllowedWritePaths_all_or_nothing_witness:
  "ensureAllowedWritePaths
     [js ''/tmp/x/../a'', js ''/etc/passwd'', js ''/var/mobile2'', js ''/var/mobile/'']
     [js ''/var/mobile'', js ''/tmp''] =
     Inl (WritePathBlocked [js ''/var/mobile'', js ''/tmp''] [js ''/etc/passwd'', js ''/var/mobile2''])
   \<and> (\<exists>n \<in> set (map posix_normalize
         [js ''/tmp/x/../a'', js ''/etc/passwd'', js ''/var/mobile2'', js ''/var/mobile/'']).
         \<not> allowedFor n [js ''/var/mobile'', js ''/tmp''])"
  using ensureAllowedWritePaths_all_or_nothing
      [of "[js ''/tmp/x/../a'', js ''/etc/passwd'', js ''/var/mobile2'', js ''/var/mobile/'']"
          "[js ''/var/mobile'', js ''/tmp'']"]
    ensure_witness_abs ensure_witness_within
  unfolding ensure_witness_norm pathWithinRoots_allowedFor
  by simp

lemma ensure_mixed_outside: "\<not> pathWithinRoots (js ''/etc/passwd'') [js ''/var/mobile'']"
  by code_simp

lemma ensure_mixed_norm: "normalizeRemotePath (js ''/etc/passwd'') = Inr (js ''/etc/passwd'')"
  by code_simp

lemma ensure_mixed_result:
  "ensureAllowedWritePaths [js ''/etc/passwd'', js ''tmp/x''] [js ''/var/mobile''] =
     Inl (InvalidPath (js ''tmp/x''))"
  by code_simp

text \<open>
  C5 as stated, for every list of paths, fails on a list that holds a path
  outside every root and, after it, a path that does not start with the
  separator: \<^verbatim>\<open>/etc/passwd\<close> normalizes to itself and is not allowed for the root
  \<^verbatim>\<open>/var/mobile\<close>, yet the call on \<^verbatim>\<open>/etc/passwd\<close>, \<^verbatim>\<open>tmp/x\<close> fails with the
  invalid-path error for \<^verbatim>\<open>tmp/x\<close>, not with the blocked-path error.
\<close>

theorem ensureAllowedWritePaths_mixed_counterexample:
  "normalizeRemotePath (js ''/etc/passwd'') = Inr (js ''/etc/passwd'')
   \<and> \<not> allowedFor (js ''/etc/passwd'') [js ''/var/mobile'']
   \<and> ensureAllowedWritePaths [js ''/etc/passwd'', js ''tmp/x''] [js ''/var/mobile''] =
       Inl (InvalidPath (js ''tmp/x''))
   \<and> ensureAllowedWritePaths [js ''/etc/passwd'', js ''tmp/x''] [js ''/var/mobile''] \<noteq>
       Inl (WritePathBlocked [js ''/var/mobile''] [js ''/etc/passwd''])"
  using ensure_mixed_norm ensure_mixed_outside ensure_mixed_result
  by (simp add: pathWithinRoots_allowedFor)

text \<open>
  C10. If some element of the path list does not start with the separator, the
  call fails with the invalid-path error of the first such element, never with
  the blocked-path error, and the outcome is the same for every root set: no
  membership in the roots is reported.
\<close>

theorem ensureAllowedWritePaths_invalid_path:
  "(\<exists>p \<in> set ps. \<not> startsWith p [CHAR_FORWARD_SLASH]) \<Longrightarrow>
   ensureAllowedWritePaths ps R =
       Inl (InvalidPath (the (find (\<lambda>p. \<not> startsWith p [CHAR_FORWARD_SLASH]) ps)))
   \<and> (\<forall>roots denied. ensureAllowedWritePaths ps R \<noteq> Inl (WritePathBlocked roots denied))
   \<and> (\<forall>R'. ensureAllowedWritePaths ps R' = ensureAllowedWritePaths ps R)"
  using mapThrowing_relative [of ps] by (simp add: ensureAllowedWritePaths_def)

lemma invalid_witness_rel:
  "\<exists>p \<in> set [js ''/var/mobile/a'', js ''/etc/passwd'', js ''tmp/x'', js ''''].
     \<not> startsWith p [CHAR_FORWARD_SLASH]"
  by code_simp

lemma invalid_witness_find:
  "the (find (\<lambda>p. \<not> startsWith p [CHAR_FORWARD_SLASH])
     [js ''/var/mobile/a'', js ''/etc/passwd'', js ''tmp/x'', js '''']) = js ''tmp/x''"
  by code_simp

theorem ensureAllowedWritePaths_invalid_path_witness:
  "(\<exists>p \<in> set [js ''/var/mobile/a'', js ''/etc/passwd'', js ''tmp/x'', js ''''].
      \<not> startsWith p [CHAR_FORWARD_SLASH])
   \<and> ensureAllowedWritePaths [js ''/var/mobile/a'', js ''/etc/passwd'', js ''tmp/x'', js '''']
        [js ''/var/mobile''] = Inl (InvalidPath (js ''tmp/x''))"
  using ensureAllowedWritePaths_invalid_path [OF invalid_witness_rel, of "[js ''/var/mobile'']"]
    invalid_witness_rel
  unfolding invalid_witness_find by blast


section \<open>The entry points\<close>

text \<open>
  C2. For every command \<open>c\<close>, transport, timeout, state, root set and declared
  write paths: when the denial table matches \<open>c\<close>, both entry points fail with
  the matching rule's reason and leave the state as it was, whatever the write
  paths and roots are; when the classifier flags \<open>c\<close> as a write, the read-only
  entry point fails and leaves the state as it was (with the write-intent error
  when the denial table does not match); and the write entry point does the
  same when the path check fails. The transport is not run in any of these
  cases; it is run by the read-only entry point when the command is neither
  denied nor flagged.
\<close>

theorem exec_blocked_never_runs:
  "(\<forall>d. matchDeniedPattern c DENY_PATTERNS = Some d \<longrightarrow>
        execReadCommand execRemote c t s = (Inl (DeniedByPolicy (reason d)), s)
      \<and> execWriteCommand execRemote roots c writePaths t s = (Inl (DeniedByPolicy (reason d)), s))
   \<and> (isLikelyWriteCommand c \<longrightarrow>
        (\<exists>e. execReadCommand execRemote c t s = (Inl e, s)))
   \<and> (matchDeniedPattern c DENY_PATTERNS = None \<and> isLikelyWriteCommand c \<longrightarrow>
        execReadCommand execRemote c t s = (Inl WriteIntentOnReadPath, s))
   \<and> (\<forall>e. ensureAllowedWritePaths writePaths roots = Inl e \<longrightarrow>
        (\<exists>e'. execWriteCommand execRemote roots c writePaths t s = (Inl e', s)))
   \<and> (matchDeniedPattern c DENY_PATTERNS = None \<and> \<not> isLikelyWriteCommand c \<longrightarrow>
        execReadCommand execRemote c t s = map_prod Inr id (execRemote c t s))"
  by (auto simp add: execReadCommand_def execWriteCommand_def split: option.splits prod.splits)

lemma exec_witness_denied:
  "map_option reason (matchDeniedPattern (js ''ls / && rm -rf /'') DENY_PATTERNS) =
     Some (js ''Refuses full filesystem deletion (rm -rf /).'')"
  by code_simp

lemma exec_witness_write: "isLikelyWriteCommand (js ''touch /var/mobile/x'')"
  by code_simp

lemma exec_witness_write_clean: "matchDeniedPattern (js ''touch /var/mobile/x'') DENY_PATTERNS = None"
  by code_simp

lemma exec_witness_runs:
  "execReadCommand recordingTransport (js ''ls -la'') None [] = (Inr (), [js ''ls -la''])"
  by code_simp

theorem exec_blocked_never_runs_witness:
  "execReadCommand recordingTransport (js ''ls / && rm -rf /'') None [] =
     (Inl (DeniedByPolicy (js ''Refuses full filesystem deletion (rm -rf /).'')), [])
   \<and> execWriteCommand recordingTransport [js ''/''] (js ''ls / && rm -rf /'') [js ''/''] None [] =
     (Inl (DeniedByPolicy (js ''Refuses full filesystem deletion (rm -rf /).'')), [])
   \<and> isLikelyWriteCommand (js ''touch /var/mobile/x'')
   \<and> execReadCommand recordingTransport (js ''touch /var/mobile/x'') None [] =
     (Inl WriteIntentOnReadPath, [])
   \<and> execReadCommand recordingTransport (js ''ls -la'') None [] = (Inr (), [js ''ls -la''])"
proof -
  obtain d where d: "matchDeniedPattern (js ''ls / && rm -rf /'') DENY_PATTERNS = Some d"
    and r: "reason d = js ''Refuses full filesystem deletion (rm -rf /).''"
    using exec_witness_denied
    by (cases "matchDeniedPattern (js ''ls / && rm -rf /'') DENY_PATTERNS") auto
  from exec_blocked_never_runs
    [of "js ''ls / && rm -rf /''" recordingTransport None "[]" "[js ''/'']" "[js ''/'']"] d r
  have a: "execReadCommand recordingTransport (js ''ls / && rm -rf /'') None [] =
     (Inl (DeniedByPolicy (js ''Refuses full filesystem deletion (rm -rf /).'')), [])
   \<and> execWriteCommand recordingTransport [js ''/''] (js ''ls / && rm -rf /'') [js ''/''] None [] =
     (Inl (DeniedByPolicy (js ''Refuses full filesystem deletion (rm -rf /).'')), [])"
    by simp
  from exec_blocked_never_runs
    [of "js ''touch /var/mobile/x''" recordingTransport None "[]" "[]" "[]"]
    exec_witness_write exec_witness_write_clean
  have b: "execReadCommand recordingTransport (js ''touch /var/mobile/x'') None [] =
     (Inl WriteIntentOnReadPath, [])"
    by simp
  from a b exec_witness_write exec_witness_runs show ?thesis by blast
qed

end
